theory Spec2Isabelle
  imports Complex_Main "HOL-Library.Char_ord" "HOL-Library.List_Lexorder" "HOL-Library.Extended_Nat"
begin

section \<open>Data model: the scopes the assignment callbacks read and write\<close>

text \<open>
  The callbacks of \<^verbatim>\<open>custom-game-assignment-guide.md\<close> work on three kinds of scope,
  listed by \<^verbatim>\<open>ctx.scopesByKind(kind).values()\<close> in the insertion order of the underlying
  map. A scope is a record of the attributes the callbacks read or write; an attribute
  that \<^verbatim>\<open>get\<close> returns as \<^verbatim>\<open>null\<close> is \<open>None\<close>. For a game, \<open>gid\<close> is \<^verbatim>\<open>game.id\<close>,
  \<open>treatment\<close> is \<^verbatim>\<open>game.get("treatment")\<close> (of its factors only \<^verbatim>\<open>playerCount\<close> is read) and
  \<open>players\<close> is \<^verbatim>\<open>game.players\<close>, as the ids of the players. For a player, \<open>assignedFactors\<close>
  and \<open>assignedTreatmentName\<close> are the attributes \<^verbatim>\<open>treatment\<close> and \<^verbatim>\<open>treatmentName\<close> that
  \<^verbatim>\<open>assignPlayer\<close> writes. Skill ratings are integers and member counts natural numbers
  (JavaScript numbers far below \<open>2^53\<close>). In the state, \<open>created\<close> counts the game ids the
  platform has handed out.
\<close>

type_synonym ident = string

record factors =
  playerCount :: nat

record game =
  gid :: ident
  hasEnded :: bool
  hasStarted :: bool
  treatment :: factors
  treatmentName :: "string option"
  batchID :: ident
  requiredSkillLevel :: "string option"
  averageSkillRating :: "real option"
  players :: "ident list"

record player =
  pid :: ident
  gameID :: "ident option"
  ended :: "string option"
  skillLevel :: "string option"
  skillRating :: "int option"
  surveyComplete :: bool
  termsAgreed :: bool
  waitingReason :: "string option"
  requestReplay :: bool
  replayError :: "string option"
  assignedFactors :: "factors option"
  assignedTreatmentName :: "string option"

record batch =
  bid :: ident
  status :: string

record state =
  games :: "game list"
  playerScopes :: "player list"
  batches :: "batch list"
  created :: nat

datatype error = SessionEnded

text \<open>JavaScript truthiness of a string-valued attribute (\<^verbatim>\<open>if (player.get("gameID"))\<close>):
  \<^verbatim>\<open>null\<close> and the empty string are falsy.\<close>

definition truthy :: "string option \<Rightarrow> bool" where
  "truthy v = (case v of None \<Rightarrow> False | Some t \<Rightarrow> t \<noteq> [])"

text \<open>Truthiness of a number-valued attribute (\<^verbatim>\<open>if (!playerRating) return\<close>):
  \<^verbatim>\<open>null\<close> and \<open>0\<close> are falsy.\<close>

definition truthyNum :: "int option \<Rightarrow> bool" where
  "truthyNum v = (case v of None \<Rightarrow> False | Some n \<Rightarrow> n \<noteq> 0)"

text \<open>The player object an event delivers, found by its id.\<close>

definition lookupPlayer :: "state \<Rightarrow> ident \<Rightarrow> player option" where
  "lookupPlayer s p = find (\<lambda>q. pid q = p) (playerScopes s)"

text \<open>\<^verbatim>\<open>player.set(key, value)\<close>: one attribute of one player is overwritten.\<close>

definition setPlayer :: "ident \<Rightarrow> (player \<Rightarrow> player) \<Rightarrow> state \<Rightarrow> state" where
  "setPlayer p f s = s\<lparr>playerScopes := map (\<lambda>q. if pid q = p then f q else q) (playerScopes s)\<rparr>"

text \<open>\<^verbatim>\<open>xs[i]\<close>: \<^verbatim>\<open>undefined\<close> outside the array.\<close>

definition nthOpt :: "'a list \<Rightarrow> int \<Rightarrow> 'a option" where
  "nthOpt xs i = (if 0 \<le> i \<and> i < int (length xs) then Some (xs ! nat i) else None)"

subsection \<open>\<^verbatim>\<open>game.assignPlayer(player)\<close>\<close>

definition removePlayer :: "ident \<Rightarrow> ident \<Rightarrow> game list \<Rightarrow> game list" where
  "removePlayer old p gs =
     map (\<lambda>g. if gid g = old then g\<lparr>players := removeAll p (players g)\<rparr> else g) gs"

definition addPlayer :: "ident \<Rightarrow> ident \<Rightarrow> game list \<Rightarrow> game list" where
  "addPlayer new p gs =
     map (\<lambda>g. if gid g = new then g\<lparr>players := players g @ [p]\<rparr> else g) gs"

text \<open>
  Modelled from the spec: the body of \<^verbatim>\<open>game.assignPlayer\<close> is library code that the
  sources do not contain. The model follows the guide's API notes (lines 260-263: it
  "handles reassignment automatically (removes from previous game)" and "updates
  player's gameID, treatment, and treatmentName attributes"; it "can be called on
  unstarted or running games") and the spec's assignment record (remove the participant
  from the old session's member set, replace the session reference, add to the new
  member set) and lifecycle rule (an assign to an ended session is rejected with
  \<open>SessionEnded\<close>). The previous game is the one the player's \<open>gameID\<close> names. No
  capacity check is made here: the callbacks make it.
\<close>

definition assignPlayer :: "game \<Rightarrow> ident \<Rightarrow> state \<Rightarrow> error + state" where
  "assignPlayer g p s =
     (if hasEnded g then Inl SessionEnded
      else
        let previousGameID = (case lookupPlayer s p of None \<Rightarrow> None | Some pl \<Rightarrow> gameID pl);
            detached = (case previousGameID of
                          None \<Rightarrow> games s
                        | Some old \<Rightarrow> removePlayer old p (games s));
            s1 = s\<lparr>games := addPlayer (gid g) p detached\<rparr>
        in Inr (setPlayer p (\<lambda>q. q\<lparr>gameID := Some (gid g),
                                   assignedFactors := Some (treatment g),
                                   assignedTreatmentName := treatmentName g\<rparr>) s1))"

section \<open>The callbacks\<close>

subsection \<open>Basic setup (guide, Step 2)\<close>

definition availableGames :: "game list \<Rightarrow> game list" where
  "availableGames gs =
     filter (\<lambda>g. \<not> hasEnded g \<and> \<not> hasStarted g \<and> playerCount (treatment g) > length (players g)) gs"

text \<open>The callback runs for a player of the context (the \<open>None\<close> branch is an event
  for no player: there is none). \<^verbatim>\<open>availableGames[0]\<close> is \<^verbatim>\<open>undefined\<close> for the
  empty array.\<close>

definition basicAssign :: "ident \<Rightarrow> state \<Rightarrow> state" where
  "basicAssign p s =
     (case lookupPlayer s p of
        None \<Rightarrow> s
      | Some pl \<Rightarrow>
          (case availableGames (games s) of
             [] \<Rightarrow> s
           | targetGame # _ \<Rightarrow>
               (case assignPlayer targetGame p s of Inl e \<Rightarrow> s | Inr s' \<Rightarrow> s')))"

subsection \<open>Strategy 1: fill games sequentially\<close>

text \<open>The filter every strategy applies to \<^verbatim>\<open>ctx.scopesByKind("game")\<close>.\<close>

definition unstarted :: "game list \<Rightarrow> game list" where
  "unstarted gs = filter (\<lambda>g. \<not> hasEnded g \<and> \<not> hasStarted g) gs"

text \<open>
  \<^verbatim>\<open>for (const game of games) { if (currentPlayers < maxPlayers) { await
  game.assignPlayer(player); break; } }\<close>. The games are the snapshot taken before the
  loop; a rejected \<^verbatim>\<open>await\<close> ends the callback with the state as it is.
\<close>

fun fillLoop :: "game list \<Rightarrow> ident \<Rightarrow> state \<Rightarrow> state" where
  "fillLoop [] p s = s"
| "fillLoop (g # gs) p s =
     (let maxPlayers = playerCount (treatment g);
          currentPlayers = length (players g)
      in if currentPlayers < maxPlayers
         then (case assignPlayer g p s of Inl e \<Rightarrow> s | Inr s' \<Rightarrow> s')
         else fillLoop gs p s)"

text \<open>\<^verbatim>\<open>.sort((a, b) => a.id.localeCompare(b.id))\<close>: a stable sort by id. Ids are
  compared as character lists, lexicographically by character code, which is how
  \<^verbatim>\<open>localeCompare\<close> orders the fixed-width upper-case alphanumeric ids of the platform.\<close>

definition sequentialFill :: "ident \<Rightarrow> state \<Rightarrow> state" where
  "sequentialFill p s =
     (case lookupPlayer s p of
        None \<Rightarrow> s
      | Some pl \<Rightarrow>
          if truthy (gameID pl) then s
          else fillLoop (sort_key gid (unstarted (games s))) p s)"

subsection \<open>Strategy 2: random assignment with balancing\<close>

text \<open>\<^verbatim>\<open>Math.min(...xs)\<close>: \<^verbatim>\<open>Infinity\<close> for no argument.\<close>

definition mathMin :: "nat list \<Rightarrow> enat" where
  "mathMin xs = fold (\<lambda>x m. min (enat x) m) xs \<infinity>"

text \<open>
  The draw \<^verbatim>\<open>Math.random()\<close> is the argument \<open>u\<close>, a number with \<open>0 \<le> u < 1\<close>;
  \<^verbatim>\<open>Math.floor(u * n)\<close> is taken over the reals.
\<close>

definition randomBalanced :: "real \<Rightarrow> ident \<Rightarrow> state \<Rightarrow> state" where
  "randomBalanced u p s =
     (case lookupPlayer s p of
        None \<Rightarrow> s
      | Some pl \<Rightarrow>
          if truthy (gameID pl) then s
          else
            let gs = unstarted (games s);
                minPlayerCount = mathMin (map (\<lambda>g. length (players g)) gs);
                underassignedGames = filter (\<lambda>g. enat (length (players g)) = minPlayerCount) gs;
                randomIndex = \<lfloor>u * real (length underassignedGames)\<rfloor>
            in (case nthOpt underassignedGames randomIndex of
                  None \<Rightarrow> s
                | Some targetGame \<Rightarrow>
                    (case assignPlayer targetGame p s of Inl e \<Rightarrow> s | Inr s' \<Rightarrow> s')))"

subsection \<open>Strategy 3: attribute-based matching\<close>

definition attributeMatch :: "ident \<Rightarrow> state \<Rightarrow> state" where
  "attributeMatch p s =
     (case lookupPlayer s p of
        None \<Rightarrow> s
      | Some pl \<Rightarrow>
          if truthy (gameID pl) then s
          else
            let playerSkillLevel = skillLevel pl;
                gs = unstarted (games s);
                matchingGames = filter (\<lambda>g. requiredSkillLevel g = playerSkillLevel) gs
            in fillLoop matchingGames p s)"

subsection \<open>Strategy 4: conditional assignment with a waiting pool\<close>

definition conditionalAssign :: "ident \<Rightarrow> state \<Rightarrow> state" where
  "conditionalAssign p s =
     (case lookupPlayer s p of
        None \<Rightarrow> s
      | Some pl \<Rightarrow>
          if truthy (gameID pl) then s
          else if \<not> surveyComplete pl \<or> \<not> termsAgreed pl
          then setPlayer p
                 (\<lambda>q. q\<lparr>waitingReason := Some ''Please complete the survey and agree to terms''\<rparr>) s
          else
            (case find (\<lambda>g. length (players g) < playerCount (treatment g)) (unstarted (games s)) of
               None \<Rightarrow> s
             | Some availableGame \<Rightarrow>
                 (case assignPlayer availableGame p s of
                    Inl e \<Rightarrow> s
                  | Inr s' \<Rightarrow> setPlayer p (\<lambda>q. q\<lparr>waitingReason := None\<rparr>) s')))"

subsection \<open>Use case 1: replay\<close>

text \<open>
  The two nested loops of the \<^verbatim>\<open>requestReplay\<close> callback. \<open>Some s'\<close> is the
  \<^verbatim>\<open>return\<close> inside the loop (or a rejected \<^verbatim>\<open>await\<close>, which ends the callback
  as well); \<open>None\<close> is a loop that ran to its end.
\<close>

fun replayGames :: "game list \<Rightarrow> ident \<Rightarrow> state \<Rightarrow> state option" where
  "replayGames [] p s = None"
| "replayGames (g # gs) p s =
     (let maxPlayers = playerCount (treatment g)
      in if length (players g) < maxPlayers
         then (case assignPlayer g p s of
                 Inl e \<Rightarrow> Some s
               | Inr s' \<Rightarrow> Some (setPlayer p (\<lambda>q. q\<lparr>requestReplay := False\<rparr>) s'))
         else replayGames gs p s)"

fun replayBatches :: "batch list \<Rightarrow> ident \<Rightarrow> state \<Rightarrow> state option" where
  "replayBatches [] p s = None"
| "replayBatches (b # bs) p s =
     (case replayGames (filter (\<lambda>g. batchID g = bid b \<and> \<not> hasEnded g) (games s)) p s of
        Some s' \<Rightarrow> Some s'
      | None \<Rightarrow> replayBatches bs p s)"

text \<open>
  Modelled from the spec: \<^verbatim>\<open>player.set("gameID", null)\<close>, which the callback comments as
  "clear previous game assignment". What the write does to \<^verbatim>\<open>game.players\<close> is library code
  that the sources do not contain: \<^verbatim>\<open>game.players\<close> lists the players whose \<open>gameID\<close> names
  the game, and the spec's side effects clear the session reference "on detach". So the
  player leaves the list of the game that its \<open>gameID\<close> named.
\<close>

definition clearGameID :: "ident \<Rightarrow> state \<Rightarrow> state" where
  "clearGameID p s =
     (let previousGameID = (case lookupPlayer s p of None \<Rightarrow> None | Some pl \<Rightarrow> gameID pl);
          detached = (case previousGameID of
                        None \<Rightarrow> games s
                      | Some old \<Rightarrow> removePlayer old p (games s))
      in setPlayer p (\<lambda>q. q\<lparr>gameID := None\<rparr>) (s\<lparr>games := detached\<rparr>))"

text \<open>The callback fires with the new value of the attribute, which is the value
  the player holds. The games it walks are read after the two writes.\<close>

definition requestReplayHandler :: "ident \<Rightarrow> state \<Rightarrow> state" where
  "requestReplayHandler p s =
     (case lookupPlayer s p of
        None \<Rightarrow> s
      | Some pl \<Rightarrow>
          if \<not> requestReplay pl then s
          else
            let s1 = clearGameID p s;
                s2 = setPlayer p (\<lambda>q. q\<lparr>ended := None\<rparr>) s1;
                running = filter (\<lambda>b. status b = ''running'') (batches s2)
            in (case replayBatches running p s2 of
                  Some s' \<Rightarrow> s'
                | None \<Rightarrow>
                    setPlayer p (\<lambda>q. q\<lparr>requestReplay := False\<rparr>)
                      (setPlayer p (\<lambda>q. q\<lparr>replayError := Some ''No games available for replay''\<rparr>) s2)))"

subsection \<open>Use case 4: skill-based matchmaking\<close>

definition requiredPlayers :: nat where
  "requiredPlayers = 4"

text \<open>\<^verbatim>\<open>a.get("skillRating") - b.get("skillRating")\<close>: \<^verbatim>\<open>null\<close> counts as \<open>0\<close> in
  the subtraction.\<close>

definition ratingOf :: "player \<Rightarrow> int" where
  "ratingOf q = (case skillRating q of None \<Rightarrow> 0 | Some r \<Rightarrow> r)"

text \<open>\<^verbatim>\<open>for (let i = 0; i < allPlayers.length; i += requiredPlayers)
  brackets.push(allPlayers.slice(i, i + requiredPlayers))\<close>\<close>

function bracketsFrom :: "nat \<Rightarrow> player list \<Rightarrow> player list list" where
  "bracketsFrom i allPlayers =
     (if i < length allPlayers
      then take requiredPlayers (drop i allPlayers) # bracketsFrom (i + requiredPlayers) allPlayers
      else [])"
  by pat_completeness auto
termination
  by (relation "measure (\<lambda>(i, allPlayers). length allPlayers - i)") (auto simp: requiredPlayers_def)

declare bracketsFrom.simps [simp del]

text \<open>
  Modelled from the spec: \<^verbatim>\<open>batch.addGame(attributes)\<close> is library code that the sources
  do not contain. It creates a session of the batch (the batch reference is set at
  creation), forming and without members, and returns it. Its id is the next one of
  the platform's id generator \<open>newID\<close>, a parameter; \<open>created\<close> counts the ids drawn.
\<close>

definition addGame :: "(nat \<Rightarrow> ident) \<Rightarrow> batch \<Rightarrow> factors \<Rightarrow> real option \<Rightarrow> state \<Rightarrow> game \<times> state" where
  "addGame newID b t avg s =
     (let g = \<lparr>gid = newID (created s), hasEnded = False, hasStarted = False, treatment = t,
                treatmentName = None, batchID = bid b, requiredSkillLevel = None,
                averageSkillRating = avg, players = []\<rparr>
      in (g, s\<lparr>games := games s @ [g], created := Suc (created s)\<rparr>))"

text \<open>\<^verbatim>\<open>for (const p of bracket) await game.assignPlayer(p)\<close>; \<open>Inl\<close> is a rejected
  \<^verbatim>\<open>await\<close>, with the state it leaves.\<close>

fun assignBracket :: "game \<Rightarrow> player list \<Rightarrow> state \<Rightarrow> (error \<times> state) + state" where
  "assignBracket g [] s = Inr s"
| "assignBracket g (q # qs) s =
     (case assignPlayer g (pid q) s of
        Inl e \<Rightarrow> Inl (e, s)
      | Inr s' \<Rightarrow> assignBracket g qs s')"

fun bracketGames :: "(nat \<Rightarrow> ident) \<Rightarrow> batch \<Rightarrow> player list list \<Rightarrow> state \<Rightarrow> (error \<times> state) + state" where
  "bracketGames newID b [] s = Inr s"
| "bracketGames newID b (bracket # rest) s =
     (if length bracket < requiredPlayers then bracketGames newID b rest s
      else
        let avgRating = real_of_int (sum_list (map ratingOf bracket)) / real (length bracket);
            (g, s1) = addGame newID b \<lparr>playerCount = requiredPlayers\<rparr> (Some avgRating) s
        in (case assignBracket g bracket s1 of
              Inl es \<Rightarrow> Inl es
            | Inr s2 \<Rightarrow> bracketGames newID b rest s2))"

definition waitingRated :: "player list \<Rightarrow> player list" where
  "waitingRated ps =
     sort_key ratingOf
       (filter (\<lambda>q. \<not> truthy (gameID q) \<and> skillRating q \<noteq> None \<and> \<not> truthy (ended q)) ps)"

definition skillRatingHandler :: "(nat \<Rightarrow> ident) \<Rightarrow> ident \<Rightarrow> state \<Rightarrow> state" where
  "skillRatingHandler newID p s =
     (case lookupPlayer s p of
        None \<Rightarrow> s
      | Some pl \<Rightarrow>
          if truthy (gameID pl) then s
          else if \<not> truthyNum (skillRating pl) then s
          else
            let allPlayers = waitingRated (playerScopes s)
            in if length allPlayers < requiredPlayers then s
               else
                 let brackets = bracketsFrom 0 allPlayers;
                     running = filter (\<lambda>b. status b = ''running'') (batches s)
                 in (case running of
                       [] \<Rightarrow> s
                     | b # _ \<Rightarrow>
                         (case bracketGames newID b brackets s of
                            Inl (e, s') \<Rightarrow> s'
                          | Inr s' \<Rightarrow> s')))"

section \<open>Runs of callbacks\<close>

text \<open>
  One event is one run of a \<^verbatim>\<open>player\<close> callback (the basic setup or one of the four
  strategies) for a player, taken as one step: a callback runs to its end before the next
  one starts. The random strategy's event carries its draw. The \<^verbatim>\<open>requestReplay\<close> and
  \<^verbatim>\<open>skillRating\<close> callbacks fire on attribute changes and are studied on their own.
\<close>

datatype event =
    Basic ident
  | Sequential ident
  | Random real ident
  | Attribute ident
  | Conditional ident

fun step :: "state \<Rightarrow> event \<Rightarrow> state" where
  "step s (Basic p) = basicAssign p s"
| "step s (Sequential p) = sequentialFill p s"
| "step s (Random u p) = randomBalanced u p s"
| "step s (Attribute p) = attributeMatch p s"
| "step s (Conditional p) = conditionalAssign p s"

definition run :: "state \<Rightarrow> event list \<Rightarrow> state" where
  "run s es = foldl step s es"

text \<open>
  Every callback of the guide that is modelled: a \<^verbatim>\<open>player\<close> callback, the
  \<^verbatim>\<open>requestReplay\<close> callback or the \<^verbatim>\<open>skillRating\<close> callback, each for a player and
  each taken as one step. \<open>newID\<close> is the platform's id generator.
\<close>

datatype callback = PlayerEvent event | ReplayRequest ident | RatingSet ident

fun react :: "(nat \<Rightarrow> ident) \<Rightarrow> state \<Rightarrow> callback \<Rightarrow> state" where
  "react newID s (PlayerEvent e) = step s e"
| "react newID s (ReplayRequest p) = requestReplayHandler p s"
| "react newID s (RatingSet p) = skillRatingHandler newID p s"

definition runAll :: "(nat \<Rightarrow> ident) \<Rightarrow> state \<Rightarrow> callback list \<Rightarrow> state" where
  "runAll newID s cs = foldl (react newID) s cs"

section \<open>Notions for stating the properties\<close>

subsection \<open>Membership and well-formed states\<close>

text \<open>The player's \<open>gameID\<close> attribute names the game \<open>g\<close>.\<close>

definition memberOf :: "state \<Rightarrow> ident \<Rightarrow> ident \<Rightarrow> bool" where
  "memberOf s p g \<longleftrightarrow> (case lookupPlayer s p of None \<Rightarrow> False | Some pl \<Rightarrow> gameID pl = Some g)"

text \<open>
  A well-formed state: game ids are distinct and non-empty (so that a player's
  \<open>gameID\<close> is truthy once it names a game), and every id in a game's \<open>players\<close> is a
  player whose \<open>gameID\<close> names that game.
\<close>

definition wellFormed :: "state \<Rightarrow> bool" where
  "wellFormed s \<longleftrightarrow>
     distinct (map gid (games s)) \<and>
     (\<forall>g \<in> set (games s). gid g \<noteq> [] \<and> (\<forall>p \<in> set (players g). memberOf s p (gid g)))"

text \<open>The capacity test of the callbacks: \<^verbatim>\<open>game.players.length < maxPlayers\<close>.\<close>

definition hasOpenSlot :: "game \<Rightarrow> bool" where
  "hasOpenSlot g \<longleftrightarrow> length (players g) < playerCount (treatment g)"

text \<open>Id, member count and capacity of every game.\<close>

definition occupancy :: "state \<Rightarrow> (ident \<times> nat \<times> nat) list" where
  "occupancy s = map (\<lambda>g. (gid g, length (players g), playerCount (treatment g))) (games s)"

text \<open>No game holds more members than its capacity.\<close>

definition withinCapacity :: "game list \<Rightarrow> bool" where
  "withinCapacity gs \<longleftrightarrow> (\<forall>g \<in> set gs. length (players g) \<le> playerCount (treatment g))"

text \<open>The events of the callbacks that compare the member count with the capacity.\<close>

fun checksCapacity :: "event \<Rightarrow> bool" where
  "checksCapacity (Random u p) = False"
| "checksCapacity e = True"

text \<open>A game \<open>h\<close> after some callbacks against the same game \<open>h0\<close> before them: same id,
  same \<open>hasEnded\<close> flag, and no new member if the game has ended.\<close>

definition endedFrozen :: "game \<Rightarrow> game \<Rightarrow> bool" where
  "endedFrozen h h0 \<longleftrightarrow>
     gid h = gid h0 \<and> hasEnded h = hasEnded h0 \<and>
     (hasEnded h0 \<longrightarrow> set (players h) \<subseteq> set (players h0))"

text \<open>The game a player's \<open>gameID\<close> names: what a callback has decided for the player.\<close>

definition assignedGame :: "state \<Rightarrow> ident \<Rightarrow> ident option" where
  "assignedGame s p = (case lookupPlayer s p of None \<Rightarrow> None | Some pl \<Rightarrow> gameID pl)"

text \<open>Two states with the same game ids, the same player ids and the same id counter.\<close>

definition sameScopes :: "state \<Rightarrow> state \<Rightarrow> bool" where
  "sameScopes s' s \<longleftrightarrow>
     map gid (games s') = map gid (games s) \<and> created s' = created s \<and>
     map pid (playerScopes s') = map pid (playerScopes s)"

subsection \<open>Occupancy of the unstarted games\<close>

text \<open>Balanced games: no game has more than one member more than another.\<close>

definition balanced :: "game list \<Rightarrow> bool" where
  "balanced gs \<longleftrightarrow> (\<forall>g \<in> set gs. \<forall>h \<in> set gs. length (players g) \<le> Suc (length (players h)))"

text \<open>The smallest and the largest member count of a non-empty list of games, and the
  games of smallest member count.\<close>

definition minOccupancy :: "game list \<Rightarrow> nat" where
  "minOccupancy gs = Min ((\<lambda>g. length (players g)) ` set gs)"

definition maxOccupancy :: "game list \<Rightarrow> nat" where
  "maxOccupancy gs = Max ((\<lambda>g. length (players g)) ` set gs)"

definition underassigned :: "game list \<Rightarrow> game list" where
  "underassigned gs = filter (\<lambda>g. length (players g) = minOccupancy gs) gs"

text \<open>The arrivals of a run of Strategy 2: each a draw and a player.\<close>

definition randomArrivals :: "(real \<times> ident) list \<Rightarrow> event list" where
  "randomArrivals as = map (\<lambda>(u, p). Random u p) as"

subsection \<open>Brackets and their games\<close>

text \<open>A player the callbacks treat as unassigned: no player of that id, or a falsy
  \<open>gameID\<close>.\<close>

definition waiting :: "state \<Rightarrow> ident \<Rightarrow> bool" where
  "waiting s x \<longleftrightarrow> (case lookupPlayer s x of None \<Rightarrow> True | Some r \<Rightarrow> \<not> truthy (gameID r))"

text \<open>The id generator from the state's counter on: its ids are non-empty, pairwise
  different and not in use; no game has the empty id.\<close>

definition freshIds :: "(nat \<Rightarrow> ident) \<Rightarrow> state \<Rightarrow> bool" where
  "freshIds newID s \<longleftrightarrow>
     (\<forall>g \<in> set (games s). gid g \<noteq> []) \<and>
     (\<forall>k \<ge> created s. newID k \<noteq> [] \<and> newID k \<notin> gid ` set (games s)) \<and>
     inj_on newID {created s..}"

text \<open>The attributes \<open>assignPlayer\<close> writes for a player it adds to the game \<open>g\<close>.\<close>

definition joined :: "game \<Rightarrow> player \<Rightarrow> player" where
  "joined g q = q\<lparr>gameID := Some (gid g), assignedFactors := Some (treatment g),
                   assignedTreatmentName := treatmentName g\<rparr>"

text \<open>The game of a bracket once its members are assigned: created with the id
  \<open>newID c\<close> in batch \<open>b\<close>, for \<open>requiredPlayers\<close> players, holding the bracket.\<close>

definition bracketGame :: "(nat \<Rightarrow> ident) \<Rightarrow> batch \<Rightarrow> nat \<Rightarrow> player list \<Rightarrow> game" where
  "bracketGame newID b c br =
     \<lparr>gid = newID c, hasEnded = False, hasStarted = False,
      treatment = \<lparr>playerCount = requiredPlayers\<rparr>, treatmentName = None, batchID = bid b,
      requiredSkillLevel = None,
      averageSkillRating = Some (real_of_int (sum_list (map ratingOf br)) / real (length br)),
      players = map pid br\<rparr>"

text \<open>One such game per bracket, with consecutive ids.\<close>

fun bracketGamesOf :: "(nat \<Rightarrow> ident) \<Rightarrow> batch \<Rightarrow> nat \<Rightarrow> player list list \<Rightarrow> game list" where
  "bracketGamesOf newID b c [] = []"
| "bracketGamesOf newID b c (br # brs) = bracketGame newID b c br # bracketGamesOf newID b (Suc c) brs"

text \<open>A player record after the brackets are seated: a member of the \<open>j\<close>-th bracket
  has joined the \<open>j\<close>-th game, any other record is as it was.\<close>

fun seatAll :: "(nat \<Rightarrow> ident) \<Rightarrow> batch \<Rightarrow> nat \<Rightarrow> player list list \<Rightarrow> player \<Rightarrow> player" where
  "seatAll newID b c [] r = r"
| "seatAll newID b c (br # brs) r =
     (if pid r \<in> pid ` set br then joined (bracketGame newID b c br) r
      else seatAll newID b (Suc c) brs r)"

text \<open>The state after one game is created for each of the brackets and their members
  are assigned to it.\<close>

definition seated :: "(nat \<Rightarrow> ident) \<Rightarrow> batch \<Rightarrow> player list list \<Rightarrow> state \<Rightarrow> state" where
  "seated newID b brs s =
     s\<lparr>games := games s @ bracketGamesOf newID b (created s) brs,
       playerScopes := map (seatAll newID b (created s) brs) (playerScopes s),
       created := created s + length brs\<rparr>"

text \<open>The complete brackets of the sorted waiting players, by position, and the players
  left over.\<close>

definition completeBrackets :: "player list \<Rightarrow> player list list" where
  "completeBrackets allPlayers =
     map (\<lambda>j. take requiredPlayers (drop (j * requiredPlayers) allPlayers))
       [0 ..< length allPlayers div requiredPlayers]"

definition leftOver :: "player list \<Rightarrow> player list" where
  "leftOver allPlayers =
     drop (length allPlayers div requiredPlayers * requiredPlayers) allPlayers"

section \<open>Example scopes\<close>

text \<open>A forming game of batch \<open>b1\<close> with the given capacity and members.\<close>

definition exampleGame :: "ident \<Rightarrow> nat \<Rightarrow> ident list \<Rightarrow> game" where
  "exampleGame i c ps =
     \<lparr>gid = i, hasEnded = False, hasStarted = False, treatment = \<lparr>playerCount = c\<rparr>,
      treatmentName = None, batchID = ''b1'', requiredSkillLevel = None,
      averageSkillRating = None, players = ps\<rparr>"

text \<open>A player with the given assignment and no other attribute set.\<close>

definition examplePlayer :: "ident \<Rightarrow> ident option \<Rightarrow> player" where
  "examplePlayer i g =
     \<lparr>pid = i, gameID = g, ended = None, skillLevel = None, skillRating = None,
      surveyComplete = False, termsAgreed = False, waitingReason = None, requestReplay = False,
      replayError = None, assignedFactors = None, assignedTreatmentName = None\<rparr>"

text \<open>One game of capacity 1, full; \<open>p1\<close> waits.\<close>

definition fullGame :: state where
  "fullGame =
     \<lparr>games = [exampleGame ''g1'' 1 [''p0'']],
      playerScopes = [examplePlayer ''p0'' (Some ''g1''), examplePlayer ''p1'' None],
      batches = [], created = 1\<rparr>"

text \<open>One empty game of capacity 3 and four waiting players.\<close>

definition threeSeats :: state where
  "threeSeats =
     \<lparr>games = [exampleGame ''g1'' 3 []],
      playerScopes = [examplePlayer ''p1'' None, examplePlayer ''p2'' None,
                      examplePlayer ''p3'' None, examplePlayer ''p4'' None],
      batches = [], created = 1\<rparr>"

text \<open>A novice game created before an expert game, and a waiting expert.\<close>

definition skillGames :: state where
  "skillGames =
     \<lparr>games = [(exampleGame ''g1'' 2 [])\<lparr>requiredSkillLevel := Some ''novice''\<rparr>,
               (exampleGame ''g2'' 2 [])\<lparr>requiredSkillLevel := Some ''expert''\<rparr>],
      playerScopes = [(examplePlayer ''p1'' None)\<lparr>skillLevel := Some ''expert''\<rparr>],
      batches = [], created = 2\<rparr>"

text \<open>A full game; \<open>p1\<close> has not met the entry conditions, \<open>p2\<close> has, and carries the
  reason of an earlier deferral.\<close>

definition waitingPool :: state where
  "waitingPool =
     \<lparr>games = [exampleGame ''g1'' 1 [''p0'']],
      playerScopes =
        [examplePlayer ''p0'' (Some ''g1''),
         examplePlayer ''p1'' None,
         (examplePlayer ''p2'' None)\<lparr>surveyComplete := True, termsAgreed := True,
            waitingReason := Some ''Please complete the survey and agree to terms''\<rparr>],
      batches = [], created = 1\<rparr>"

text \<open>A running batch with one ended game and one game with a free seat; \<open>p0\<close>, whose
  game has ended, asks for a replay.\<close>

definition replayState :: state where
  "replayState =
     \<lparr>games = [(exampleGame ''g1'' 1 [''p0''])\<lparr>hasStarted := True, hasEnded := True\<rparr>,
               exampleGame ''g2'' 2 []],
      playerScopes = [(examplePlayer ''p0'' (Some ''g1''))\<lparr>ended := Some ''game ended'',
                        requestReplay := True\<rparr>],
      batches = [\<lparr>bid = ''b1'', status = ''running''\<rparr>], created = 3\<rparr>"

text \<open>A running batch whose one game, of capacity 1, holds \<open>p0\<close>, who asks for a replay.\<close>

definition replayFull :: state where
  "replayFull =
     \<lparr>games = [exampleGame ''g1'' 1 [''p0'']],
      playerScopes = [(examplePlayer ''p0'' (Some ''g1''))\<lparr>requestReplay := True\<rparr>],
      batches = [\<lparr>bid = ''b1'', status = ''running''\<rparr>], created = 2\<rparr>"

text \<open>A game that has started, has not ended, and has a free seat.\<close>

definition runningGame :: game where
  "runningGame = (exampleGame ''g1'' 2 [''p0''])\<lparr>hasStarted := True\<rparr>"

text \<open>Two empty games of capacity 2 and one waiting player.\<close>

definition twoEmpty :: state where
  "twoEmpty =
     \<lparr>games = [exampleGame ''g1'' 2 [], exampleGame ''g2'' 2 []],
      playerScopes = [examplePlayer ''p1'' None],
      batches = [], created = 2\<rparr>"

text \<open>The same open games and player, next to an ended game, a batch and created ids.\<close>

definition twoEmptyLater :: state where
  "twoEmptyLater =
     \<lparr>games = [(exampleGame ''g0'' 2 [])\<lparr>hasStarted := True, hasEnded := True\<rparr>,
               exampleGame ''g1'' 2 [], exampleGame ''g2'' 2 []],
      playerScopes = [examplePlayer ''p1'' None, examplePlayer ''p2'' None],
      batches = [\<lparr>bid = ''b1'', status = ''running''\<rparr>], created = 7\<rparr>"

text \<open>Two empty games of capacity 2 and four waiting players.\<close>

definition fourArrivals :: state where
  "fourArrivals =
     \<lparr>games = [exampleGame ''g1'' 2 [], exampleGame ''g2'' 2 []],
      playerScopes = [examplePlayer ''p1'' None, examplePlayer ''p2'' None,
                      examplePlayer ''p3'' None, examplePlayer ''p4'' None],
      batches = [], created = 2\<rparr>"

text \<open>A waiting player with a skill rating.\<close>

definition ratedPlayer :: "ident \<Rightarrow> int \<Rightarrow> player" where
  "ratedPlayer i r = (examplePlayer i None)\<lparr>skillRating := Some r\<rparr>"

text \<open>Five rated players waiting in a running batch without games, and an id
  generator.\<close>

definition bracketState :: state where
  "bracketState =
     \<lparr>games = [],
      playerScopes = [ratedPlayer ''p1'' 30, ratedPlayer ''p2'' 10, ratedPlayer ''p3'' 20,
                      ratedPlayer ''p4'' 50, ratedPlayer ''p5'' 40],
      batches = [\<lparr>bid = ''b1'', status = ''running''\<rparr>], created = 0\<rparr>"

definition exampleID :: "nat \<Rightarrow> ident" where
  "exampleID k = CHR ''n'' # replicate k (CHR ''x'')"

text \<open>A running batch with a full game of capacity 1 that holds \<open>p0\<close>, and an empty game;
  \<open>p0\<close> asks for a replay.\<close>

definition replayTwo :: state where
  "replayTwo =
     \<lparr>games = [exampleGame ''g1'' 1 [''p0''], exampleGame ''g2'' 2 []],
      playerScopes = [(examplePlayer ''p0'' (Some ''g1''))\<lparr>requestReplay := True\<rparr>,
                      examplePlayer ''p1'' None],
      batches = [\<lparr>bid = ''b1'', status = ''running''\<rparr>], created = 2\<rparr>"

text \<open>Two empty expert games that the context lists with the later id first, and a
  waiting expert.\<close>

definition listedBackwards :: state where
  "listedBackwards =
     \<lparr>games = [(exampleGame ''g2'' 2 [])\<lparr>requiredSkillLevel := Some ''expert''\<rparr>,
               (exampleGame ''g1'' 2 [])\<lparr>requiredSkillLevel := Some ''expert''\<rparr>],
      playerScopes = [(examplePlayer ''p1'' None)\<lparr>skillLevel := Some ''expert''\<rparr>],
      batches = [], created = 2\<rparr>"

text \<open>A full game and a participant \<open>p3\<close> who has met the entry conditions and has no
  waiting reason yet.\<close>

definition eligibleWaiting :: state where
  "eligibleWaiting =
     \<lparr>games = [exampleGame ''g1'' 1 [''p0'']],
      playerScopes =
        [examplePlayer ''p0'' (Some ''g1''),
         (examplePlayer ''p3'' None)\<lparr>surveyComplete := True, termsAgreed := True\<rparr>],
      batches = [], created = 1\<rparr>"

section \<open>Lemmas on the scopes and on \<^verbatim>\<open>assignPlayer\<close>\<close>

lemma find_map_pid:
  assumes "\<And>r. pid (F r) = pid r"
  shows "find (\<lambda>r. pid r = q) (map F rs) = map_option F (find (\<lambda>r. pid r = q) rs)"
  using assms by (induction rs) auto

lemma lookupPlayer_setPlayer:
  assumes "\<And>r. pid (f r) = pid r"
  shows "lookupPlayer (setPlayer p f s) q =
           map_option (\<lambda>r. if pid r = p then f r else r) (lookupPlayer s q)"
  unfolding lookupPlayer_def setPlayer_def using assms
  by (simp add: find_map_pid)

lemma lookupPlayer_pid: "lookupPlayer s q = Some r \<Longrightarrow> pid r = q"
  unfolding lookupPlayer_def by (auto simp: find_Some_iff)

lemma games_setPlayer [simp]: "games (setPlayer p f s) = games s"
  by (simp add: setPlayer_def)

lemma lookupPlayer_games_update [simp]: "lookupPlayer (s\<lparr>games := gs\<rparr>) q = lookupPlayer s q"
  by (simp add: lookupPlayer_def)

lemma map_gid_removePlayer [simp]: "map gid (removePlayer old p gs) = map gid gs"
  by (induction gs) (auto simp: removePlayer_def)

lemma map_gid_addPlayer [simp]: "map gid (addPlayer new p gs) = map gid gs"
  by (induction gs) (auto simp: addPlayer_def)

lemma memberOf_setPlayer_frame:
  assumes "\<And>r. pid (f r) = pid r" "\<And>r. gameID (f r) = gameID r"
  shows "memberOf (setPlayer p f s) q g = memberOf s q g"
  using assms by (auto simp: memberOf_def lookupPlayer_setPlayer split: option.splits)

lemma wellFormed_setPlayer:
  assumes "\<And>r. pid (f r) = pid r" "\<And>r. gameID (f r) = gameID r" "wellFormed s"
  shows "wellFormed (setPlayer p f s)"
  using assms(3) unfolding wellFormed_def
  by (simp add: memberOf_setPlayer_frame[OF assms(1,2)])

lemma wellFormed_assignPlayer:
  assumes wf: "wellFormed s" and ex: "lookupPlayer s p = Some pl" and a: "assignPlayer g p s = Inr s'"
  shows "wellFormed s'"
proof -
  define detached where "detached = (case gameID pl of None \<Rightarrow> games s | Some old \<Rightarrow> removePlayer old p (games s))"
  define upd :: "player \<Rightarrow> player" where "upd = (\<lambda>q. q\<lparr>gameID := Some (gid g), assignedFactors := Some (treatment g), assignedTreatmentName := treatmentName g\<rparr>)"
  have s': "s' = setPlayer p upd (s\<lparr>games := addPlayer (gid g) p detached\<rparr>)"
    using a ex by (auto simp: assignPlayer_def detached_def upd_def Let_def split: if_splits)
  have ids: "map gid (games s') = map gid (games s)"
    by (simp add: s' detached_def split: option.splits)
  have updpid: "\<And>r. pid (upd r) = pid r" by (simp add: upd_def)
  have look: "\<And>q. lookupPlayer s' q = map_option (\<lambda>r. if pid r = p then upd r else r) (lookupPlayer s q)"
    by (simp add: s' lookupPlayer_setPlayer[OF updpid])
  have mem: "memberOf s' q (gid h')" if h': "h' \<in> set (games s')" and q: "q \<in> set (players h')" for h' q
  proof -
    from h' obtain h where h: "h \<in> set (games s)" and gh: "gid h' = gid h"
      and ph: "players h' = (if gid h = gid g then (if gameID pl = Some (gid h) then removeAll p (players h) else players h) @ [p]
                 else (if gameID pl = Some (gid h) then removeAll p (players h) else players h))"
      by (auto simp: s' detached_def addPlayer_def removePlayer_def split: option.splits if_splits)
    show ?thesis
    proof (cases "q = p")
      case True
      have "gid h = gid g"
      proof (rule ccontr)
        assume ne: "gid h \<noteq> gid g"
        show False
        proof (cases "gameID pl = Some (gid h)")
          case True then show False using ph q ne \<open>q = p\<close> by simp
        next
          case False
          then have "p \<in> set (players h)" using ph q ne \<open>q = p\<close> by simp
          with wf h have "memberOf s p (gid h)" by (auto simp: wellFormed_def)
          with ex False show False by (simp add: memberOf_def)
        qed
      qed
      then show ?thesis using True ex look[of p] lookupPlayer_pid[OF ex] gh
        by (simp add: memberOf_def upd_def)
    next
      case False
      then have "q \<in> set (players h)" using ph q by (auto split: if_splits)
      with wf h have m: "memberOf s q (gid h)" by (auto simp: wellFormed_def)
      then obtain ql where ql: "lookupPlayer s q = Some ql" "gameID ql = Some (gid h)"
        by (auto simp: memberOf_def split: option.splits)
      from lookupPlayer_pid[OF ql(1)] False have "pid ql \<noteq> p" by simp
      then show ?thesis using ql look[of q] gh by (simp add: memberOf_def)
    qed
  qed
  show ?thesis
    unfolding wellFormed_def
    using wf ids mem
    apply (intro conjI ballI)
      apply (simp add: wellFormed_def)
     apply (metis (no_types, lifting) wellFormed_def image_iff list.set_map)
    by blast
qed

lemma wellFormed_assignPlayer_case:
  assumes "wellFormed s" "lookupPlayer s p = Some pl"
  shows "wellFormed (case assignPlayer g p s of Inl e \<Rightarrow> s | Inr s' \<Rightarrow> s')"
  using assms wellFormed_assignPlayer by (cases "assignPlayer g p s") auto

lemma wellFormed_fillLoop:
  assumes "wellFormed s" "lookupPlayer s p = Some pl"
  shows "wellFormed (fillLoop gs p s)"
  using assms by (induction gs) (auto simp: Let_def wellFormed_assignPlayer_case)

lemma wellFormed_basicAssign: "wellFormed s \<Longrightarrow> wellFormed (basicAssign p s)"
  by (auto simp: basicAssign_def wellFormed_assignPlayer_case split: option.splits list.splits)

lemma wellFormed_sequentialFill: "wellFormed s \<Longrightarrow> wellFormed (sequentialFill p s)"
  by (auto simp: sequentialFill_def wellFormed_fillLoop split: option.splits)

lemma wellFormed_randomBalanced: "wellFormed s \<Longrightarrow> wellFormed (randomBalanced u p s)"
  by (auto simp: randomBalanced_def Let_def wellFormed_assignPlayer_case split: option.splits)

lemma wellFormed_attributeMatch: "wellFormed s \<Longrightarrow> wellFormed (attributeMatch p s)"
  by (auto simp: attributeMatch_def Let_def wellFormed_fillLoop split: option.splits)

lemma wellFormed_conditionalAssign: "wellFormed s \<Longrightarrow> wellFormed (conditionalAssign p s)"
  by (auto simp: conditionalAssign_def wellFormed_setPlayer dest: wellFormed_assignPlayer
      split: option.splits sum.splits)

lemma wellFormed_step: "wellFormed s \<Longrightarrow> wellFormed (step s e)"
  by (cases e)
    (simp_all add: wellFormed_basicAssign wellFormed_sequentialFill wellFormed_randomBalanced
      wellFormed_attributeMatch wellFormed_conditionalAssign)

lemma wellFormed_run: "wellFormed s \<Longrightarrow> wellFormed (run s es)"
  unfolding run_def by (induction es arbitrary: s) (simp_all add: wellFormed_step)

lemma filter_key_le_one:
  "distinct (map f xs) \<Longrightarrow> length (filter (\<lambda>y. f y = k) xs) \<le> Suc 0"
  by (induction xs) (auto simp: image_iff filter_empty_conv)

lemma length_filter_mono:
  "(\<And>x. x \<in> set xs \<Longrightarrow> P x \<Longrightarrow> Q x) \<Longrightarrow> length (filter P xs) \<le> length (filter Q xs)"
  by (induction xs) auto

lemma wellFormed_member:
  "wellFormed s \<Longrightarrow> g \<in> set (games s) \<Longrightarrow> p \<in> set (players g) \<Longrightarrow> memberOf s p (gid g)"
  unfolding wellFormed_def by blast

lemma wellFormed_at_most_one:
  assumes "wellFormed s"
  shows "length (filter (\<lambda>g. \<not> hasEnded g \<and> p \<in> set (players g)) (games s)) \<le> 1"
proof -
  obtain k where k: "\<And>g. g \<in> set (games s) \<Longrightarrow> p \<in> set (players g) \<Longrightarrow> gid g = k"
  proof (cases "\<exists>g \<in> set (games s). p \<in> set (players g)")
    case True
    then obtain g0 where g0: "g0 \<in> set (games s)" "p \<in> set (players g0)" by blast
    have "gid g = gid g0" if "g \<in> set (games s)" "p \<in> set (players g)" for g
      using wellFormed_member[OF assms that] wellFormed_member[OF assms g0]
      by (auto simp: memberOf_def split: option.splits)
    then show ?thesis using that by blast
  next
    case False
    then show ?thesis using that[of undefined] by blast
  qed
  have "length (filter (\<lambda>g. \<not> hasEnded g \<and> p \<in> set (players g)) (games s))
          \<le> length (filter (\<lambda>g. gid g = k) (games s))"
    using k by (intro length_filter_mono) auto
  also have "\<dots> \<le> Suc 0"
    using assms by (intro filter_key_le_one) (simp add: wellFormed_def)
  finally show ?thesis by simp
qed

lemma assigned_short_circuit:
  assumes "lookupPlayer s p = Some pl" "truthy (gameID pl)"
  shows "sequentialFill p s = s" "randomBalanced u p s = s" "attributeMatch p s = s"
    "conditionalAssign p s = s"
  using assms
  by (simp_all add: sequentialFill_def randomBalanced_def attributeMatch_def conditionalAssign_def)

lemma assignPlayer_Inr: "\<not> hasEnded g \<Longrightarrow> \<exists>s'. assignPlayer g p s = Inr s'"
  by (simp add: assignPlayer_def Let_def)

lemma assignPlayer_ended: "hasEnded g \<Longrightarrow> assignPlayer g p s = Inl SessionEnded"
  by (simp add: assignPlayer_def)

lemma assignPlayer_memberOf:
  assumes ex: "lookupPlayer s p = Some pl" and a: "assignPlayer g p s = Inr s'"
  shows "memberOf s' p (gid g)"
proof -
  define upd :: "player \<Rightarrow> player" where "upd = (\<lambda>q. q\<lparr>gameID := Some (gid g), assignedFactors := Some (treatment g), assignedTreatmentName := treatmentName g\<rparr>)"
  define detached where "detached = (case gameID pl of None \<Rightarrow> games s | Some old \<Rightarrow> removePlayer old p (games s))"
  have s': "s' = setPlayer p upd (s\<lparr>games := addPlayer (gid g) p detached\<rparr>)"
    using a ex by (auto simp: assignPlayer_def detached_def upd_def Let_def split: if_splits)
  have updpid: "\<And>r. pid (upd r) = pid r" by (simp add: upd_def)
  have "lookupPlayer s' p = Some (upd pl)"
    using ex lookupPlayer_pid[OF ex] by (simp add: s' lookupPlayer_setPlayer[OF updpid])
  then show "memberOf s' p (gid g)"
    by (simp add: memberOf_def upd_def)
qed

lemma assignPlayer_holds:
  assumes g: "g \<in> set (games s)" and a: "assignPlayer g p s = Inr s'"
  shows "\<exists>h \<in> set (games s'). gid h = gid g \<and> p \<in> set (players h)"
proof -
  define detached where "detached =
    (case (case lookupPlayer s p of None \<Rightarrow> None | Some pl \<Rightarrow> gameID pl) of
       None \<Rightarrow> games s | Some old \<Rightarrow> removePlayer old p (games s))"
  have s': "games s' = addPlayer (gid g) p detached"
    using a by (auto simp: assignPlayer_def detached_def Let_def split: if_splits)
  have "map gid detached = map gid (games s)"
    by (simp add: detached_def split: option.splits)
  with g have "gid g \<in> set (map gid detached)"
    by (metis image_eqI list.set_map)
  then obtain h where h: "h \<in> set detached" "gid h = gid g" by auto
  then have "h\<lparr>players := players h @ [p]\<rparr> \<in> set (games s')"
    by (force simp: s' addPlayer_def)
  then show ?thesis
    using h(2) by (intro bexI[of _ "h\<lparr>players := players h @ [p]\<rparr>"]) auto
qed

lemma assignPlayer_only:
  assumes wf: "wellFormed s" and ex: "lookupPlayer s p = Some pl" and a: "assignPlayer g p s = Inr s'"
  shows "\<forall>h \<in> set (games s'). p \<in> set (players h) \<longrightarrow> gid h = gid g"
proof (intro ballI impI)
  fix h assume "h \<in> set (games s')" "p \<in> set (players h)"
  from wellFormed_member[OF wellFormed_assignPlayer[OF wf ex a] this] assignPlayer_memberOf[OF ex a]
  show "gid h = gid g"
    by (auto simp: memberOf_def split: option.splits)
qed

section \<open>Evaluating the callbacks on the example scopes\<close>

lemmas callback_defs =
  basicAssign_def sequentialFill_def randomBalanced_def attributeMatch_def conditionalAssign_def
  availableGames_def unstarted_def mathMin_def nthOpt_def lookupPlayer_def truthy_def
  assignPlayer_def addPlayer_def removePlayer_def setPlayer_def run_def Let_def

lemmas example_defs = exampleGame_def examplePlayer_def

section \<open>C1: the capacity invariant\<close>

text \<open>
  Claim C1 (capacity invariant; every strategy checks occupancy against capacity before
  it assigns). Strategy 2 makes no such check: with one full game of capacity 1 and a
  waiting player, \<open>randomBalanced\<close> assigns the player to the full game, whose member
  count becomes 2. Strategy 1, which makes the check, leaves the state as it is.
\<close>

theorem randomBalanced_overbooks:
  "occupancy fullGame = [(''g1'', 1, 1)]
   \<and> occupancy (randomBalanced 0 ''p1'' fullGame) = [(''g1'', 2, 1)]
   \<and> occupancy (sequentialFill ''p1'' fullGame) = [(''g1'', 1, 1)]"
  by (simp add: occupancy_def fullGame_def exampleGame_def examplePlayer_def randomBalanced_def
      sequentialFill_def lookupPlayer_def truthy_def unstarted_def mathMin_def nthOpt_def
      assignPlayer_def addPlayer_def removePlayer_def setPlayer_def wellFormed_def memberOf_def)

section \<open>C3: sequential fill\<close>

lemma unstarted_not_ended: "g \<in> set (unstarted gs) \<Longrightarrow> \<not> hasEnded g"
  by (simp add: unstarted_def)

lemma fillLoop_all_full:
  "\<forall>g \<in> set gs. \<not> hasOpenSlot g \<Longrightarrow> fillLoop gs p s = s"
  by (induction gs) (simp_all add: hasOpenSlot_def)

lemma fillLoop_first:
  "\<forall>g \<in> set pre. \<not> hasOpenSlot g \<Longrightarrow> hasOpenSlot t \<Longrightarrow>
     fillLoop (pre @ t # post) p s = (case assignPlayer t p s of Inl e \<Rightarrow> s | Inr s' \<Rightarrow> s')"
  by (induction pre) (simp_all add: hasOpenSlot_def)

lemma fillLoop_first_Inr:
  assumes "\<forall>g \<in> set pre. \<not> hasOpenSlot g" "hasOpenSlot t" "\<not> hasEnded t"
  shows "assignPlayer t p s = Inr (fillLoop (pre @ t # post) p s)"
  using fillLoop_first[OF assms(1,2)] assignPlayer_Inr[OF assms(3), of p s] by auto

text \<open>
  Claim C3. For a participant without a game, Strategy 1 orders the games that have
  neither ended nor started by id (the sort the code labels creation order; it is stable,
  and keeps exactly those games), and assigns the participant to the first game in that
  order with fewer members than its capacity: the result is \<open>assignPlayer\<close> on that game,
  the participant's \<open>gameID\<close> names it and it holds the participant. If no such game has
  spare capacity the state is unchanged: the participant stays unassigned.
\<close>

theorem sequentialFill_first_with_spare_capacity:
  assumes "lookupPlayer s p = Some pl" "\<not> truthy (gameID pl)"
  shows "sorted (map gid (sort_key gid (unstarted (games s))))
    \<and> set (sort_key gid (unstarted (games s))) = {g \<in> set (games s). \<not> hasEnded g \<and> \<not> hasStarted g}
    \<and> (\<forall>i. filter (\<lambda>g. gid g = i) (sort_key gid (unstarted (games s)))
             = filter (\<lambda>g. gid g = i) (unstarted (games s)))
    \<and> (\<forall>pre t post.
          sort_key gid (unstarted (games s)) = pre @ t # post \<and>
          (\<forall>g \<in> set pre. \<not> hasOpenSlot g) \<and> hasOpenSlot t \<longrightarrow>
            assignPlayer t p s = Inr (sequentialFill p s) \<and>
            memberOf (sequentialFill p s) p (gid t) \<and>
            (\<exists>h \<in> set (games (sequentialFill p s)). gid h = gid t \<and> p \<in> set (players h)))
    \<and> ((\<forall>g \<in> set (unstarted (games s)). \<not> hasOpenSlot g) \<longrightarrow> sequentialFill p s = s)"
proof (intro conjI allI impI)
  show "sorted (map gid (sort_key gid (unstarted (games s))))" by simp
  show "set (sort_key gid (unstarted (games s))) = {g \<in> set (games s). \<not> hasEnded g \<and> \<not> hasStarted g}"
    by (auto simp: unstarted_def)
  show "filter (\<lambda>g. gid g = i) (sort_key gid (unstarted (games s)))
             = filter (\<lambda>g. gid g = i) (unstarted (games s))" for i
    by (rule sort_key_stable)
next
  fix pre t post
  assume h: "sort_key gid (unstarted (games s)) = pre @ t # post \<and>
          (\<forall>g \<in> set pre. \<not> hasOpenSlot g) \<and> hasOpenSlot t"
  then have "t \<in> set (sort_key gid (unstarted (games s)))" by simp
  then have t: "t \<in> set (games s)" "\<not> hasEnded t" by (auto simp: unstarted_def)
  have sf: "sequentialFill p s = fillLoop (pre @ t # post) p s"
    using assms h by (simp add: sequentialFill_def)
  show a: "assignPlayer t p s = Inr (sequentialFill p s)"
    unfolding sf using h t by (intro fillLoop_first_Inr) auto
  show "memberOf (sequentialFill p s) p (gid t)"
    by (rule assignPlayer_memberOf[OF assms(1) a])
  show "\<exists>h \<in> set (games (sequentialFill p s)). gid h = gid t \<and> p \<in> set (players h)"
    by (rule assignPlayer_holds[OF t(1) a])
next
  assume "\<forall>g \<in> set (unstarted (games s)). \<not> hasOpenSlot g"
  then show "sequentialFill p s = s"
    using assms by (simp add: sequentialFill_def fillLoop_all_full)
qed

theorem sequentialFill_first_with_spare_capacity_witness:
  "lookupPlayer threeSeats ''p1'' = Some (examplePlayer ''p1'' None)
   \<and> \<not> truthy (gameID (examplePlayer ''p1'' None))
   \<and> assignPlayer (exampleGame ''g1'' 3 []) ''p1'' threeSeats = Inr (sequentialFill ''p1'' threeSeats)
   \<and> occupancy (run threeSeats [Sequential ''p1'', Sequential ''p2'', Sequential ''p3''])
        = [(''g1'', 3, 3)]
   \<and> map players (games (run threeSeats [Sequential ''p1'', Sequential ''p2'', Sequential ''p3'']))
        = [[''p1'', ''p2'', ''p3'']]
   \<and> sequentialFill ''p4'' (run threeSeats [Sequential ''p1'', Sequential ''p2'', Sequential ''p3''])
        = run threeSeats [Sequential ''p1'', Sequential ''p2'', Sequential ''p3'']"
proof -
  let ?r = "run threeSeats [Sequential ''p1'', Sequential ''p2'', Sequential ''p3'']"
  have l1: "lookupPlayer threeSeats ''p1'' = Some (examplePlayer ''p1'' None)"
    by (simp add: threeSeats_def lookupPlayer_def example_defs)
  have t1: "\<not> truthy (gameID (examplePlayer ''p1'' None))"
    by (simp add: truthy_def example_defs)
  have c1: "sort_key gid (unstarted (games threeSeats)) = [] @ exampleGame ''g1'' 3 [] # []"
    by (simp add: threeSeats_def unstarted_def example_defs)
  have o1: "hasOpenSlot (exampleGame ''g1'' 3 [])"
    by (simp add: hasOpenSlot_def example_defs)
  have a: "assignPlayer (exampleGame ''g1'' 3 []) ''p1'' threeSeats = Inr (sequentialFill ''p1'' threeSeats)"
    using sequentialFill_first_with_spare_capacity[OF l1 t1] c1 o1 by fastforce
  have r: "?r = threeSeats\<lparr>games := [exampleGame ''g1'' 3 [''p1'', ''p2'', ''p3'']],
             playerScopes := [(examplePlayer ''p1'' (Some ''g1''))\<lparr>assignedFactors := Some \<lparr>playerCount = 3\<rparr>\<rparr>,
                              (examplePlayer ''p2'' (Some ''g1''))\<lparr>assignedFactors := Some \<lparr>playerCount = 3\<rparr>\<rparr>,
                              (examplePlayer ''p3'' (Some ''g1''))\<lparr>assignedFactors := Some \<lparr>playerCount = 3\<rparr>\<rparr>,
                              examplePlayer ''p4'' None]\<rparr>"
    by (simp add: threeSeats_def callback_defs example_defs)
  have l4: "lookupPlayer ?r ''p4'' = Some (examplePlayer ''p4'' None)"
    unfolding r by (simp add: threeSeats_def lookupPlayer_def example_defs)
  have t4: "\<not> truthy (gameID (examplePlayer ''p4'' None))"
    by (simp add: truthy_def example_defs)
  have f4: "\<forall>g \<in> set (unstarted (games ?r)). \<not> hasOpenSlot g"
    unfolding r by (simp add: unstarted_def hasOpenSlot_def example_defs)
  have d: "sequentialFill ''p4'' ?r = ?r"
    using sequentialFill_first_with_spare_capacity[OF l4 t4] f4 by blast
  have o: "occupancy ?r = [(''g1'', 3, 3)]" "map players (games ?r) = [[''p1'', ''p2'', ''p3'']]"
    unfolding r by (simp_all add: occupancy_def example_defs)
  show ?thesis using l1 t1 a o d by simp
qed

section \<open>C5: attribute match\<close>

lemma sorted_matches_in_fill_order:
  assumes "sorted (map gid gs)"
  shows "filter P (unstarted gs) = filter P (sort_key gid (unstarted gs))"
proof -
  have "sorted (map gid (unstarted gs))"
    unfolding unstarted_def using assms by (rule sorted_filter)
  then show ?thesis by (simp add: sort_key_id_if_sorted)
qed

text \<open>
  Claim C5, as stated: among the matches Strategy 3 picks by Sequential Fill order.
  Strategy 3 does not sort: with two matching games listed as \<open>g2\<close>, \<open>g1\<close> it seats the
  participant in \<open>g2\<close>, where Strategy 1, which sorts by id, seats the participant in \<open>g1\<close>.
\<close>

theorem attributeMatch_keeps_listing_order:
  "map gid (games listedBackwards) = [''g2'', ''g1'']
   \<and> map players (games (attributeMatch ''p1'' listedBackwards)) = [[''p1''], []]
   \<and> assignedGame (attributeMatch ''p1'' listedBackwards) ''p1'' = Some ''g2''
   \<and> map players (games (sequentialFill ''p1'' listedBackwards)) = [[], [''p1'']]
   \<and> assignedGame (sequentialFill ''p1'' listedBackwards) ''p1'' = Some ''g1''"
  by (simp add: listedBackwards_def assignedGame_def callback_defs example_defs)

text \<open>
  Claim C5, amended. For a participant without a game whose \<open>skillLevel\<close> is \<open>v\<close>,
  Strategy 3 considers exactly the games, neither ended nor started, whose
  \<open>requiredSkillLevel\<close> equals \<open>v\<close>, in the order the context lists them, and assigns the
  participant to the first of them with spare capacity; that is the order of Strategy 1
  restricted to the matches whenever the games are listed in id order. If no game matches,
  or every match is full, the state is unchanged: the participant stays unassigned. A
  participant with level \<open>expert\<close> is seated in the game that requires \<open>expert\<close> even when a
  \<open>novice\<close> game comes first.
\<close>

theorem attributeMatch_first_matching_with_spare_capacity:
  assumes "lookupPlayer s p = Some pl" "\<not> truthy (gameID pl)"
  shows "set (filter (\<lambda>g. requiredSkillLevel g = skillLevel pl) (unstarted (games s)))
           = {g \<in> set (games s). \<not> hasEnded g \<and> \<not> hasStarted g \<and> requiredSkillLevel g = skillLevel pl}
    \<and> (sorted (map gid (games s)) \<longrightarrow>
          filter (\<lambda>g. requiredSkillLevel g = skillLevel pl) (unstarted (games s))
            = filter (\<lambda>g. requiredSkillLevel g = skillLevel pl) (sort_key gid (unstarted (games s))))
    \<and> (\<forall>pre t post.
          filter (\<lambda>g. requiredSkillLevel g = skillLevel pl) (unstarted (games s)) = pre @ t # post \<and>
          (\<forall>g \<in> set pre. \<not> hasOpenSlot g) \<and> hasOpenSlot t \<longrightarrow>
            requiredSkillLevel t = skillLevel pl \<and>
            assignPlayer t p s = Inr (attributeMatch p s) \<and>
            memberOf (attributeMatch p s) p (gid t) \<and>
            (\<exists>h \<in> set (games (attributeMatch p s)). gid h = gid t \<and> p \<in> set (players h)))
    \<and> ((\<forall>g \<in> set (filter (\<lambda>g. requiredSkillLevel g = skillLevel pl) (unstarted (games s))).
            \<not> hasOpenSlot g) \<longrightarrow> attributeMatch p s = s)"
proof (intro conjI allI impI)
  show "set (filter (\<lambda>g. requiredSkillLevel g = skillLevel pl) (unstarted (games s)))
           = {g \<in> set (games s). \<not> hasEnded g \<and> \<not> hasStarted g \<and> requiredSkillLevel g = skillLevel pl}"
    by (auto simp: unstarted_def)
next
  assume "sorted (map gid (games s))"
  then show "filter (\<lambda>g. requiredSkillLevel g = skillLevel pl) (unstarted (games s))
            = filter (\<lambda>g. requiredSkillLevel g = skillLevel pl) (sort_key gid (unstarted (games s)))"
    by (rule sorted_matches_in_fill_order)
next
  fix pre t post
  assume h: "filter (\<lambda>g. requiredSkillLevel g = skillLevel pl) (unstarted (games s)) = pre @ t # post \<and>
          (\<forall>g \<in> set pre. \<not> hasOpenSlot g) \<and> hasOpenSlot t"
  then have "t \<in> set (filter (\<lambda>g. requiredSkillLevel g = skillLevel pl) (unstarted (games s)))"
    by simp
  then have t: "t \<in> set (games s)" "\<not> hasEnded t" "requiredSkillLevel t = skillLevel pl"
    by (auto simp: unstarted_def)
  show "requiredSkillLevel t = skillLevel pl" by (rule t(3))
  have am: "attributeMatch p s = fillLoop (pre @ t # post) p s"
    using assms h by (simp add: attributeMatch_def)
  show a: "assignPlayer t p s = Inr (attributeMatch p s)"
    unfolding am using h t by (intro fillLoop_first_Inr) auto
  show "memberOf (attributeMatch p s) p (gid t)"
    by (rule assignPlayer_memberOf[OF assms(1) a])
  show "\<exists>h \<in> set (games (attributeMatch p s)). gid h = gid t \<and> p \<in> set (players h)"
    by (rule assignPlayer_holds[OF t(1) a])
next
  assume "\<forall>g \<in> set (filter (\<lambda>g. requiredSkillLevel g = skillLevel pl) (unstarted (games s))).
            \<not> hasOpenSlot g"
  then show "attributeMatch p s = s"
    using assms by (simp add: attributeMatch_def fillLoop_all_full)
qed

theorem attributeMatch_first_matching_with_spare_capacity_witness:
  "lookupPlayer skillGames ''p1'' = Some ((examplePlayer ''p1'' None)\<lparr>skillLevel := Some ''expert''\<rparr>)
   \<and> \<not> truthy (gameID ((examplePlayer ''p1'' None)\<lparr>skillLevel := Some ''expert''\<rparr>))
   \<and> sorted (map gid (games skillGames))
   \<and> map requiredSkillLevel (games skillGames) = [Some ''novice'', Some ''expert'']
   \<and> assignPlayer ((exampleGame ''g2'' 2 [])\<lparr>requiredSkillLevel := Some ''expert''\<rparr>) ''p1'' skillGames
        = Inr (attributeMatch ''p1'' skillGames)
   \<and> map players (games (attributeMatch ''p1'' skillGames)) = [[], [''p1'']]
   \<and> memberOf (attributeMatch ''p1'' skillGames) ''p1'' ''g2''
   \<and> attributeMatch ''p1'' (skillGames\<lparr>games := [hd (games skillGames)]\<rparr>)
        = skillGames\<lparr>games := [hd (games skillGames)]\<rparr>"
proof -
  let ?pl = "(examplePlayer ''p1'' None)\<lparr>skillLevel := Some ''expert''\<rparr>"
  let ?g2 = "(exampleGame ''g2'' 2 [])\<lparr>requiredSkillLevel := Some ''expert''\<rparr>"
  let ?s1 = "skillGames\<lparr>games := [hd (games skillGames)]\<rparr>"
  have l: "lookupPlayer skillGames ''p1'' = Some ?pl"
    by (simp add: skillGames_def lookupPlayer_def example_defs)
  have t: "\<not> truthy (gameID ?pl)"
    by (simp add: truthy_def example_defs)
  have so: "sorted (map gid (games skillGames))"
    "map requiredSkillLevel (games skillGames) = [Some ''novice'', Some ''expert'']"
    by (simp_all add: skillGames_def example_defs)
  have m: "filter (\<lambda>g. requiredSkillLevel g = skillLevel ?pl) (unstarted (games skillGames))
            = [] @ ?g2 # []"
    by (simp add: skillGames_def unstarted_def example_defs)
  have o: "hasOpenSlot ?g2" by (simp add: hasOpenSlot_def example_defs)
  note first = attributeMatch_first_matching_with_spare_capacity[OF l t,
      THEN conjunct2, THEN conjunct2, THEN conjunct1, rule_format, of "[]" ?g2 "[]"]
  have a: "assignPlayer ?g2 ''p1'' skillGames = Inr (attributeMatch ''p1'' skillGames)"
    and mo: "memberOf (attributeMatch ''p1'' skillGames) ''p1'' (gid ?g2)"
    using first m o by simp_all
  have pl: "map players (games (attributeMatch ''p1'' skillGames)) = [[], [''p1'']]"
    by (simp add: skillGames_def callback_defs example_defs)
  have l1: "lookupPlayer ?s1 ''p1'' = Some ?pl"
    by (simp add: skillGames_def lookupPlayer_def example_defs)
  have none: "\<forall>g \<in> set (filter (\<lambda>g. requiredSkillLevel g = skillLevel ?pl) (unstarted (games ?s1))).
            \<not> hasOpenSlot g"
    by (simp add: skillGames_def unstarted_def example_defs)
  have d: "attributeMatch ''p1'' ?s1 = ?s1"
    using attributeMatch_first_matching_with_spare_capacity[OF l1 t,
      THEN conjunct2, THEN conjunct2, THEN conjunct2] none by (rule mp)
  show ?thesis using l t so a mo pl d by (simp add: example_defs)
qed

section \<open>C9: the waiting reason on a deferral\<close>

lemma lookupPlayer_setPlayer_other:
  assumes "\<And>r. pid (f r) = pid r" "q \<noteq> p"
  shows "lookupPlayer (setPlayer p f s) q = lookupPlayer s q"
proof (cases "lookupPlayer s q")
  case None
  then show ?thesis by (simp add: lookupPlayer_setPlayer[OF assms(1)])
next
  case (Some r)
  with lookupPlayer_pid[OF Some] assms(2) show ?thesis
    by (simp add: lookupPlayer_setPlayer[OF assms(1)])
qed

lemma lookupPlayer_setPlayer_same:
  assumes "\<And>r. pid (f r) = pid r" "lookupPlayer s p = Some pl"
  shows "lookupPlayer (setPlayer p f s) p = Some (f pl)"
  using lookupPlayer_pid[OF assms(2)] assms(2) by (simp add: lookupPlayer_setPlayer[OF assms(1)])

lemma assignPlayer_lookup_same:
  assumes "lookupPlayer s p = Some pl" "assignPlayer g p s = Inr s'"
  shows "lookupPlayer s' p = Some (pl\<lparr>gameID := Some (gid g), assignedFactors := Some (treatment g),
            assignedTreatmentName := treatmentName g\<rparr>)"
proof -
  have "s' = setPlayer p (\<lambda>q. q\<lparr>gameID := Some (gid g), assignedFactors := Some (treatment g),
            assignedTreatmentName := treatmentName g\<rparr>)
          (s\<lparr>games := addPlayer (gid g) p
                (case gameID pl of None \<Rightarrow> games s | Some old \<Rightarrow> removePlayer old p (games s))\<rparr>)"
    using assms by (auto simp: assignPlayer_def Let_def split: if_splits)
  then show ?thesis
    using assms(1) by (simp add: lookupPlayer_setPlayer_same)
qed

text \<open>
  The frame of a deferral by Strategy 4, for a participant without a game. When the entry
  conditions are unmet, or no unstarted game has spare capacity, the games, the batches
  and every other player are as before, and the participant's record differs at most in
  \<open>waitingReason\<close> (its \<open>gameID\<close> is what it was). With unmet conditions the new state is
  the old one with \<open>waitingReason\<close> set to the message; with no spare capacity it is the
  old state. When a game with spare capacity is found, the participant is assigned to it
  and \<open>waitingReason\<close> is \<open>None\<close> afterwards.
\<close>

lemma conditionalAssign_deferral_frame:
  assumes "lookupPlayer s p = Some pl" "\<not> truthy (gameID pl)"
  shows "((\<not> surveyComplete pl \<or> \<not> termsAgreed pl) \<longrightarrow>
            conditionalAssign p s =
              setPlayer p (\<lambda>q. q\<lparr>waitingReason := Some ''Please complete the survey and agree to terms''\<rparr>) s)
    \<and> (surveyComplete pl \<and> termsAgreed pl \<and> (\<forall>g \<in> set (unstarted (games s)). \<not> hasOpenSlot g) \<longrightarrow>
            conditionalAssign p s = s)
    \<and> ((\<not> surveyComplete pl \<or> \<not> termsAgreed pl) \<or> (\<forall>g \<in> set (unstarted (games s)). \<not> hasOpenSlot g) \<longrightarrow>
            games (conditionalAssign p s) = games s \<and>
            batches (conditionalAssign p s) = batches s \<and>
            created (conditionalAssign p s) = created s \<and>
            (\<forall>q. q \<noteq> p \<longrightarrow> lookupPlayer (conditionalAssign p s) q = lookupPlayer s q) \<and>
            (\<exists>w. lookupPlayer (conditionalAssign p s) p = Some (pl\<lparr>waitingReason := w\<rparr>)))
    \<and> (\<forall>g. surveyComplete pl \<and> termsAgreed pl \<and> find hasOpenSlot (unstarted (games s)) = Some g \<longrightarrow>
            (\<exists>r. lookupPlayer (conditionalAssign p s) p = Some r \<and>
                 gameID r = Some (gid g) \<and> waitingReason r = None))"
proof -
  let ?msg = "''Please complete the survey and agree to terms''"
  have ho: "(\<lambda>g. length (players g) < playerCount (treatment g)) = hasOpenSlot"
    by (simp add: hasOpenSlot_def fun_eq_iff)
  have unmet: "conditionalAssign p s = setPlayer p (\<lambda>q. q\<lparr>waitingReason := Some ?msg\<rparr>) s"
    if "\<not> surveyComplete pl \<or> \<not> termsAgreed pl"
    using assms that by (auto simp: conditionalAssign_def)
  have full: "conditionalAssign p s = s"
    if "surveyComplete pl" "termsAgreed pl" "\<forall>g \<in> set (unstarted (games s)). \<not> hasOpenSlot g"
  proof -
    from that(3) have "find hasOpenSlot (unstarted (games s)) = None"
      by (simp add: find_None_iff)
    then show ?thesis using assms that(1,2) by (simp add: conditionalAssign_def ho)
  qed
  have frame: "games (conditionalAssign p s) = games s \<and>
            batches (conditionalAssign p s) = batches s \<and>
            created (conditionalAssign p s) = created s \<and>
            (\<forall>q. q \<noteq> p \<longrightarrow> lookupPlayer (conditionalAssign p s) q = lookupPlayer s q) \<and>
            (\<exists>w. lookupPlayer (conditionalAssign p s) p = Some (pl\<lparr>waitingReason := w\<rparr>))"
    if d: "(\<not> surveyComplete pl \<or> \<not> termsAgreed pl) \<or> (\<forall>g \<in> set (unstarted (games s)). \<not> hasOpenSlot g)"
  proof (cases "\<not> surveyComplete pl \<or> \<not> termsAgreed pl")
    case True
    have "lookupPlayer (setPlayer p (\<lambda>q. q\<lparr>waitingReason := Some ?msg\<rparr>) s) p
            = Some (pl\<lparr>waitingReason := Some ?msg\<rparr>)"
      using assms(1) by (simp add: lookupPlayer_setPlayer_same)
    then show ?thesis
      unfolding unmet[OF True]
      by (auto simp: lookupPlayer_setPlayer_other) (simp_all add: setPlayer_def)
  next
    case False
    with d have "conditionalAssign p s = s" by (intro full) auto
    moreover have "\<exists>w. lookupPlayer s p = Some (pl\<lparr>waitingReason := w\<rparr>)"
      using assms(1) by (intro exI[of _ "waitingReason pl"]) simp
    ultimately show ?thesis by simp
  qed
  have placed: "\<exists>r. lookupPlayer (conditionalAssign p s) p = Some r \<and>
                 gameID r = Some (gid g) \<and> waitingReason r = None"
    if "surveyComplete pl" "termsAgreed pl" "find hasOpenSlot (unstarted (games s)) = Some g" for g
  proof -
    from that(3) have "g \<in> set (unstarted (games s))"
      by (auto simp: find_Some_iff)
    then have "\<not> hasEnded g" by (rule unstarted_not_ended)
    then obtain s1 where a: "assignPlayer g p s = Inr s1"
      using assignPlayer_Inr by blast
    have ca: "conditionalAssign p s = setPlayer p (\<lambda>q. q\<lparr>waitingReason := None\<rparr>) s1"
      using assms that a by (simp add: conditionalAssign_def ho)
    show ?thesis
      unfolding ca using assignPlayer_lookup_same[OF assms(1) a]
      by (simp add: lookupPlayer_setPlayer_same)
  qed
  show ?thesis
    using unmet full frame placed by blast
qed

lemma conditionalAssign_deferral_frame_example:
  "lookupPlayer waitingPool ''p1'' = Some (examplePlayer ''p1'' None)
   \<and> \<not> truthy (gameID (examplePlayer ''p1'' None))
   \<and> \<not> surveyComplete (examplePlayer ''p1'' None)
   \<and> conditionalAssign ''p1'' waitingPool =
        setPlayer ''p1'' (\<lambda>q. q\<lparr>waitingReason := Some ''Please complete the survey and agree to terms''\<rparr>)
          waitingPool
   \<and> games (conditionalAssign ''p1'' waitingPool) = games waitingPool
   \<and> map waitingReason (playerScopes (conditionalAssign ''p1'' waitingPool))
        = [None, Some ''Please complete the survey and agree to terms'',
           Some ''Please complete the survey and agree to terms'']
   \<and> conditionalAssign ''p2'' waitingPool = waitingPool
   \<and> map (\<lambda>r. (gameID r, waitingReason r))
        (playerScopes (conditionalAssign ''p2'' (waitingPool\<lparr>games := [exampleGame ''g1'' 2 [''p0'']]\<rparr>)))
        = [(Some ''g1'', None), (None, None), (Some ''g1'', None)]"
proof -
  let ?p2 = "(examplePlayer ''p2'' None)\<lparr>surveyComplete := True, termsAgreed := True,
            waitingReason := Some ''Please complete the survey and agree to terms''\<rparr>"
  have l1: "lookupPlayer waitingPool ''p1'' = Some (examplePlayer ''p1'' None)"
    by (simp add: waitingPool_def lookupPlayer_def example_defs)
  have t1: "\<not> truthy (gameID (examplePlayer ''p1'' None))"
    by (simp add: truthy_def example_defs)
  have u1: "\<not> surveyComplete (examplePlayer ''p1'' None)"
    by (simp add: example_defs)
  note i1 = conditionalAssign_deferral_frame[OF l1 t1]
  have a: "conditionalAssign ''p1'' waitingPool =
        setPlayer ''p1'' (\<lambda>q. q\<lparr>waitingReason := Some ''Please complete the survey and agree to terms''\<rparr>)
          waitingPool"
    using i1[THEN conjunct1] u1 by simp
  have b: "games (conditionalAssign ''p1'' waitingPool) = games waitingPool"
    using i1[THEN conjunct2, THEN conjunct2, THEN conjunct1] u1 by simp
  have c: "map waitingReason (playerScopes (conditionalAssign ''p1'' waitingPool))
        = [None, Some ''Please complete the survey and agree to terms'',
           Some ''Please complete the survey and agree to terms'']"
    unfolding a by (simp add: waitingPool_def setPlayer_def example_defs)
  have l2: "lookupPlayer waitingPool ''p2'' = Some ?p2"
    by (simp add: waitingPool_def lookupPlayer_def example_defs)
  have t2: "\<not> truthy (gameID ?p2)"
    by (simp add: truthy_def example_defs)
  have f2: "surveyComplete ?p2 \<and> termsAgreed ?p2 \<and>
              (\<forall>g \<in> set (unstarted (games waitingPool)). \<not> hasOpenSlot g)"
    by (simp add: waitingPool_def unstarted_def hasOpenSlot_def example_defs)
  have d: "conditionalAssign ''p2'' waitingPool = waitingPool"
    using conditionalAssign_deferral_frame[OF l2 t2, THEN conjunct2, THEN conjunct1] f2 by (rule mp)
  have e: "map (\<lambda>r. (gameID r, waitingReason r))
        (playerScopes (conditionalAssign ''p2'' (waitingPool\<lparr>games := [exampleGame ''g1'' 2 [''p0'']]\<rparr>)))
        = [(Some ''g1'', None), (None, None), (Some ''g1'', None)]"
    by (simp add: waitingPool_def callback_defs example_defs)
  show ?thesis using l1 t1 u1 a b c d e by simp
qed

text \<open>
  Claim C9 (on either kind of deferral the callback sets the participant's human-readable
  \<open>waitingReason\<close>). Strategy 4 writes the reason only when the entry conditions are
  unmet. For a participant without a game who has met them, when no unstarted game has
  spare capacity, the callback finds no game and ends without a write: the state is
  unchanged, and the participant's record, its \<open>waitingReason\<close> included, is what it was.
  In \<open>eligibleWaiting\<close> the participant \<open>p3\<close> is deferred so and has no waiting reason
  afterwards.
\<close>

theorem conditionalAssign_full_sets_no_reason:
  assumes "lookupPlayer s p = Some pl" "\<not> truthy (gameID pl)"
    and "surveyComplete pl" "termsAgreed pl"
    and "\<forall>g \<in> set (unstarted (games s)). \<not> hasOpenSlot g"
  shows "conditionalAssign p s = s
    \<and> lookupPlayer (conditionalAssign p s) p = Some pl
    \<and> (\<exists>r. lookupPlayer (conditionalAssign p s) p = Some r \<and> gameID r = gameID pl \<and>
             waitingReason r = waitingReason pl)"
proof -
  have "conditionalAssign p s = s"
    using conditionalAssign_deferral_frame[OF assms(1,2), THEN conjunct2, THEN conjunct1] assms(3-5)
    by blast
  then show ?thesis using assms(1) by simp
qed

theorem conditionalAssign_full_sets_no_reason_witness:
  "map (\<lambda>r. (pid r, surveyComplete r, termsAgreed r, gameID r, waitingReason r))
      (playerScopes eligibleWaiting)
     = [(''p0'', False, False, Some ''g1'', None), (''p3'', True, True, None, None)]
   \<and> occupancy eligibleWaiting = [(''g1'', 1, 1)]
   \<and> filter hasOpenSlot (unstarted (games eligibleWaiting)) = []
   \<and> conditionalAssign ''p3'' eligibleWaiting = eligibleWaiting
   \<and> map (\<lambda>r. (pid r, gameID r, waitingReason r))
        (playerScopes (conditionalAssign ''p3'' eligibleWaiting))
     = [(''p0'', Some ''g1'', None), (''p3'', None, None)]"
proof -
  let ?p3 = "(examplePlayer ''p3'' None)\<lparr>surveyComplete := True, termsAgreed := True\<rparr>"
  have l: "lookupPlayer eligibleWaiting ''p3'' = Some ?p3"
    by (simp add: eligibleWaiting_def lookupPlayer_def example_defs)
  have c: "\<not> truthy (gameID ?p3)" "surveyComplete ?p3" "termsAgreed ?p3"
    by (simp_all add: truthy_def example_defs)
  have f: "filter hasOpenSlot (unstarted (games eligibleWaiting)) = []"
    by (simp add: eligibleWaiting_def unstarted_def hasOpenSlot_def example_defs)
  then have n: "\<forall>g \<in> set (unstarted (games eligibleWaiting)). \<not> hasOpenSlot g"
    by (simp add: filter_empty_conv)
  have same: "conditionalAssign ''p3'' eligibleWaiting = eligibleWaiting"
    using conditionalAssign_full_sets_no_reason[OF l c n] by (rule conjunct1)
  have e: "map (\<lambda>r. (pid r, surveyComplete r, termsAgreed r, gameID r, waitingReason r))
      (playerScopes eligibleWaiting)
     = [(''p0'', False, False, Some ''g1'', None), (''p3'', True, True, None, None)]"
    "occupancy eligibleWaiting = [(''g1'', 1, 1)]"
    by (simp_all add: eligibleWaiting_def occupancy_def example_defs)
  have after: "map (\<lambda>r. (pid r, gameID r, waitingReason r))
        (playerScopes (conditionalAssign ''p3'' eligibleWaiting))
     = [(''p0'', Some ''g1'', None), (''p3'', None, None)]"
    unfolding same by (simp add: eligibleWaiting_def example_defs)
  show ?thesis using e f same after by simp
qed

section \<open>C10: the replay request\<close>

lemma replayGames_Some:
  assumes "replayGames gs p s = Some s'" "\<forall>g \<in> set gs. \<not> hasEnded g"
  shows "\<exists>g \<in> set gs. hasOpenSlot g \<and>
           (\<exists>s1. assignPlayer g p s = Inr s1 \<and> s' = setPlayer p (\<lambda>q. q\<lparr>requestReplay := False\<rparr>) s1)"
  using assms
proof (induction gs)
  case Nil
  then show ?case by simp
next
  case (Cons g gs)
  show ?case
  proof (cases "hasOpenSlot g")
    case True
    from Cons.prems(2) obtain s1 where a: "assignPlayer g p s = Inr s1"
      using assignPlayer_Inr[of g p s] by auto
    with Cons.prems(1) True have "s' = setPlayer p (\<lambda>q. q\<lparr>requestReplay := False\<rparr>) s1"
      by (simp add: hasOpenSlot_def)
    with True a show ?thesis by auto
  next
    case False
    with Cons.prems have "replayGames gs p s = Some s'" by (simp add: hasOpenSlot_def)
    with Cons.IH Cons.prems(2) show ?thesis by auto
  qed
qed

lemma replayBatches_Some:
  assumes "replayBatches bs p s = Some s'"
  shows "\<exists>b \<in> set bs. \<exists>g \<in> set (games s). batchID g = bid b \<and> \<not> hasEnded g \<and> hasOpenSlot g \<and>
           (\<exists>s1. assignPlayer g p s = Inr s1 \<and> s' = setPlayer p (\<lambda>q. q\<lparr>requestReplay := False\<rparr>) s1)"
  using assms
proof (induction bs)
  case Nil
  then show ?case by simp
next
  case (Cons b bs)
  show ?case
  proof (cases "replayGames (filter (\<lambda>g. batchID g = bid b \<and> \<not> hasEnded g) (games s)) p s")
    case None
    with Cons show ?thesis by auto
  next
    case (Some s'')
    with Cons.prems have "s'' = s'" by simp
    with replayGames_Some[OF Some] show ?thesis by auto
  qed
qed

lemma clearGameID_lookup:
  assumes "lookupPlayer s p = Some pl"
  shows "lookupPlayer (clearGameID p s) p = Some (pl\<lparr>gameID := None\<rparr>)"
  using assms by (simp add: clearGameID_def Let_def lookupPlayer_setPlayer_same)

lemma clearGameID_batches [simp]: "batches (clearGameID p s) = batches s"
  by (simp add: clearGameID_def Let_def setPlayer_def)

lemma clearGameID_games:
  assumes "g1 \<in> set (games (clearGameID p s))"
  shows "\<exists>g \<in> set (games s). g1 = g \<or> g1 = g\<lparr>players := removeAll p (players g)\<rparr>"
  using assms
  by (auto simp: clearGameID_def Let_def removePlayer_def split: option.splits if_splits)

lemma open_after_clear:
  assumes "g1 \<in> set (games (clearGameID p s))" "hasOpenSlot g1"
  shows "\<exists>g \<in> set (games s). gid g = gid g1 \<and> batchID g = batchID g1 \<and> hasEnded g = hasEnded g1 \<and>
           length (removeAll p (players g)) < playerCount (treatment g)"
proof -
  from clearGameID_games[OF assms(1)] obtain g where g: "g \<in> set (games s)"
    and c: "g1 = g \<or> g1 = g\<lparr>players := removeAll p (players g)\<rparr>" by blast
  have le: "length (removeAll p (players g)) \<le> length (players g)"
    by (simp add: removeAll_filter_not_eq)
  have "length (removeAll p (players g)) < playerCount (treatment g)"
  proof (cases "g1 = g")
    case True
    with assms(2) have "length (players g) < playerCount (treatment g)"
      by (simp add: hasOpenSlot_def)
    with le show ?thesis by (rule le_less_trans)
  next
    case False
    with c have "g1 = g\<lparr>players := removeAll p (players g)\<rparr>" by simp
    with assms(2) show ?thesis by (simp add: hasOpenSlot_def)
  qed
  moreover from c have "gid g = gid g1" "batchID g = batchID g1" "hasEnded g = hasEnded g1"
    by auto
  ultimately show ?thesis using g by blast
qed

text \<open>
  Claim C10. A run of the \<open>requestReplay\<close> callback for a player whose
  \<open>requestReplay\<close> is true either assigns the player to a game of a running batch that
  has not ended and has spare capacity (counted without the player itself, whom the
  callback's first write detaches; the player's \<open>gameID\<close> names the game and the game holds
  the player), or assigns the player to no game (the games are those left by the detaching
  write, the \<open>gameID\<close> is null) and sets \<open>replayError\<close> to the message. In both cases
  \<open>requestReplay\<close> is false afterwards, and a second run of the callback on the resulting
  state changes nothing.
\<close>

theorem requestReplay_assigns_or_reports:
  assumes "lookupPlayer s p = Some pl" "requestReplay pl"
  shows "((\<exists>g \<in> set (games s). \<exists>b \<in> set (batches s).
             status b = ''running'' \<and> batchID g = bid b \<and> \<not> hasEnded g \<and>
             length (removeAll p (players g)) < playerCount (treatment g) \<and>
             memberOf (requestReplayHandler p s) p (gid g) \<and>
             (\<exists>h \<in> set (games (requestReplayHandler p s)). gid h = gid g \<and> p \<in> set (players h)))
          \<or> (games (requestReplayHandler p s) = games (clearGameID p s) \<and>
              (\<exists>r. lookupPlayer (requestReplayHandler p s) p = Some r \<and> gameID r = None \<and>
                   replayError r = Some ''No games available for replay'')))
    \<and> (\<exists>r. lookupPlayer (requestReplayHandler p s) p = Some r \<and> requestReplay r = False)
    \<and> requestReplayHandler p (requestReplayHandler p s) = requestReplayHandler p s"
proof -
  define s2 where "s2 = setPlayer p (\<lambda>q. q\<lparr>ended := None\<rparr>) (clearGameID p s)"
  define running where "running = filter (\<lambda>b. status b = ''running'') (batches s2)"
  have g2: "games s2 = games (clearGameID p s)" and b2: "batches s2 = batches s"
    by (simp_all add: s2_def) (simp add: setPlayer_def)
  have l2: "lookupPlayer s2 p = Some (pl\<lparr>gameID := None, ended := None\<rparr>)"
    using clearGameID_lookup[OF assms(1)] by (simp add: s2_def lookupPlayer_setPlayer_same)
  have h: "requestReplayHandler p s =
      (case replayBatches running p s2 of
         Some s' \<Rightarrow> s'
       | None \<Rightarrow> setPlayer p (\<lambda>q. q\<lparr>requestReplay := False\<rparr>)
                  (setPlayer p (\<lambda>q. q\<lparr>replayError := Some ''No games available for replay''\<rparr>) s2))"
    unfolding requestReplayHandler_def s2_def running_def Let_def using assms by simp
  have main: "((\<exists>g \<in> set (games s). \<exists>b \<in> set (batches s).
             status b = ''running'' \<and> batchID g = bid b \<and> \<not> hasEnded g \<and>
             length (removeAll p (players g)) < playerCount (treatment g) \<and>
             memberOf (requestReplayHandler p s) p (gid g) \<and>
             (\<exists>h \<in> set (games (requestReplayHandler p s)). gid h = gid g \<and> p \<in> set (players h)))
          \<or> (games (requestReplayHandler p s) = games (clearGameID p s) \<and>
              (\<exists>r. lookupPlayer (requestReplayHandler p s) p = Some r \<and> gameID r = None \<and>
                   replayError r = Some ''No games available for replay'')))
    \<and> (\<exists>r. lookupPlayer (requestReplayHandler p s) p = Some r \<and> requestReplay r = False)"
  proof (cases "replayBatches running p s2")
    case None
    then have e: "requestReplayHandler p s = setPlayer p (\<lambda>q. q\<lparr>requestReplay := False\<rparr>)
                  (setPlayer p (\<lambda>q. q\<lparr>replayError := Some ''No games available for replay''\<rparr>) s2)"
      by (simp add: h)
    have "lookupPlayer (requestReplayHandler p s) p =
            Some (pl\<lparr>gameID := None, ended := None,
                      replayError := Some ''No games available for replay'', requestReplay := False\<rparr>)"
      unfolding e using l2 by (simp add: lookupPlayer_setPlayer_same)
    moreover have "games (requestReplayHandler p s) = games (clearGameID p s)"
      unfolding e by (simp add: g2)
    ultimately show ?thesis by simp
  next
    case (Some s')
    then have e: "requestReplayHandler p s = s'" by (simp add: h)
    from replayBatches_Some[OF Some] obtain b g1 s1 where
      b: "b \<in> set running" and g1: "g1 \<in> set (games s2)" "batchID g1 = bid b" "\<not> hasEnded g1" "hasOpenSlot g1"
      and a: "assignPlayer g1 p s2 = Inr s1" and s': "s' = setPlayer p (\<lambda>q. q\<lparr>requestReplay := False\<rparr>) s1"
      by blast
    from b have br: "b \<in> set (batches s)" "status b = ''running''"
      by (auto simp: running_def b2)
    have m: "memberOf s' p (gid g1)"
      unfolding s' using assignPlayer_memberOf[OF l2 a] by (simp add: memberOf_setPlayer_frame)
    from assignPlayer_holds[OF g1(1) a]
    have hd: "\<exists>h \<in> set (games s'). gid h = gid g1 \<and> p \<in> set (players h)"
      by (simp add: s')
    have "lookupPlayer s' p = Some ((pl\<lparr>gameID := None, ended := None\<rparr>)\<lparr>gameID := Some (gid g1),
            assignedFactors := Some (treatment g1), assignedTreatmentName := treatmentName g1,
            requestReplay := False\<rparr>)"
      unfolding s' using assignPlayer_lookup_same[OF l2 a] by (simp add: lookupPlayer_setPlayer_same)
    then have rr: "\<exists>r. lookupPlayer s' p = Some r \<and> requestReplay r = False" by simp
    from g1(1) have "g1 \<in> set (games (clearGameID p s))" by (simp add: g2)
    from open_after_clear[OF this g1(4)] obtain g where g: "g \<in> set (games s)" "gid g = gid g1"
      "batchID g = batchID g1" "hasEnded g = hasEnded g1"
      "length (removeAll p (players g)) < playerCount (treatment g)"
      by blast
    have "\<exists>g \<in> set (games s). \<exists>b \<in> set (batches s).
             status b = ''running'' \<and> batchID g = bid b \<and> \<not> hasEnded g \<and>
             length (removeAll p (players g)) < playerCount (treatment g) \<and>
             memberOf s' p (gid g) \<and>
             (\<exists>h \<in> set (games s'). gid h = gid g \<and> p \<in> set (players h))"
      using g br g1(2,3) m hd by (intro bexI[of _ g] bexI[of _ b]) simp_all
    with rr show ?thesis unfolding e by blast
  qed
  then obtain r where "lookupPlayer (requestReplayHandler p s) p = Some r" "requestReplay r = False"
    by blast
  then have "requestReplayHandler p (requestReplayHandler p s) = requestReplayHandler p s"
    by (simp add: requestReplayHandler_def[of p "requestReplayHandler p s"])
  with main show ?thesis by blast
qed

lemmas replay_defs = requestReplayHandler_def clearGameID_def hasOpenSlot_def memberOf_def

theorem requestReplay_assigns_or_reports_witness:
  "lookupPlayer replayState ''p0'' =
      Some ((examplePlayer ''p0'' (Some ''g1''))\<lparr>ended := Some ''game ended'', requestReplay := True\<rparr>)
   \<and> requestReplay ((examplePlayer ''p0'' (Some ''g1''))\<lparr>ended := Some ''game ended'', requestReplay := True\<rparr>)
   \<and> map (\<lambda>r. (gameID r, requestReplay r, replayError r)) (playerScopes (requestReplayHandler ''p0'' replayState))
        = [(Some ''g2'', False, None)]
   \<and> map players (games (requestReplayHandler ''p0'' replayState)) = [[], [''p0'']]
   \<and> requestReplayHandler ''p0'' (requestReplayHandler ''p0'' replayState)
        = requestReplayHandler ''p0'' replayState
   \<and> map (\<lambda>r. (gameID r, requestReplay r, replayError r))
        (playerScopes (requestReplayHandler ''p0'' (replayState\<lparr>batches := []\<rparr>)))
        = [(None, False, Some ''No games available for replay'')]
   \<and> requestReplayHandler ''p0'' (requestReplayHandler ''p0'' (replayState\<lparr>batches := []\<rparr>))
        = requestReplayHandler ''p0'' (replayState\<lparr>batches := []\<rparr>)
   \<and> lookupPlayer replayFull ''p0'' = Some ((examplePlayer ''p0'' (Some ''g1''))\<lparr>requestReplay := True\<rparr>)
   \<and> map (\<lambda>r. (gameID r, requestReplay r, replayError r)) (playerScopes (requestReplayHandler ''p0'' replayFull))
        = [(Some ''g1'', False, None)]
   \<and> map players (games (requestReplayHandler ''p0'' replayFull)) = [[''p0'']]"
proof -
  let ?pl = "(examplePlayer ''p0'' (Some ''g1''))\<lparr>ended := Some ''game ended'', requestReplay := True\<rparr>"
  let ?pf = "(examplePlayer ''p0'' (Some ''g1''))\<lparr>requestReplay := True\<rparr>"
  have l: "lookupPlayer replayState ''p0'' = Some ?pl"
    by (simp add: replayState_def lookupPlayer_def example_defs)
  have l': "lookupPlayer (replayState\<lparr>batches := []\<rparr>) ''p0'' = Some ?pl"
    by (simp add: replayState_def lookupPlayer_def example_defs)
  have lf: "lookupPlayer replayFull ''p0'' = Some ?pf"
    by (simp add: replayFull_def lookupPlayer_def example_defs)
  have rq: "requestReplay ?pl" "requestReplay ?pf" by (simp_all add: example_defs)
  have a: "map (\<lambda>r. (gameID r, requestReplay r, replayError r)) (playerScopes (requestReplayHandler ''p0'' replayState))
        = [(Some ''g2'', False, None)]"
    "map players (games (requestReplayHandler ''p0'' replayState)) = [[], [''p0'']]"
    by (simp_all add: replayState_def replay_defs callback_defs example_defs)
  have b: "map (\<lambda>r. (gameID r, requestReplay r, replayError r))
        (playerScopes (requestReplayHandler ''p0'' (replayState\<lparr>batches := []\<rparr>)))
        = [(None, False, Some ''No games available for replay'')]"
    by (simp add: replayState_def replay_defs callback_defs example_defs)
  have c: "map (\<lambda>r. (gameID r, requestReplay r, replayError r)) (playerScopes (requestReplayHandler ''p0'' replayFull))
        = [(Some ''g1'', False, None)]"
    "map players (games (requestReplayHandler ''p0'' replayFull)) = [[''p0'']]"
    by (simp_all add: replayFull_def replay_defs callback_defs example_defs)
  note i1 = requestReplay_assigns_or_reports[OF l rq(1), THEN conjunct2, THEN conjunct2]
  note i2 = requestReplay_assigns_or_reports[OF l' rq(1), THEN conjunct2, THEN conjunct2]
  show ?thesis using l lf rq a b c i1 i2 by simp
qed

section \<open>C8: the candidate set and ended games\<close>

lemma endedFrozen_refl: "list_all2 endedFrozen gs gs"
  by (simp add: list_all2_same endedFrozen_def)

lemma endedFrozen_trans:
  assumes "list_all2 endedFrozen a b" "list_all2 endedFrozen b c"
  shows "list_all2 endedFrozen a c"
  by (rule list_all2_trans[OF _ assms]) (auto simp: endedFrozen_def)

lemma nthOpt_Some_mem: "nthOpt xs i = Some t \<Longrightarrow> t \<in> set xs"
  by (auto simp: nthOpt_def nat_less_iff split: if_splits)

lemma endedFrozen_assignPlayer:
  assumes wf: "wellFormed s" and t: "t \<in> set (games s)" "\<not> hasEnded t"
    and a: "assignPlayer t p s = Inr s'"
  shows "list_all2 endedFrozen (games s') (games s)"
proof -
  define prev where "prev = (case lookupPlayer s p of None \<Rightarrow> None | Some pl \<Rightarrow> gameID pl)"
  define F :: "game \<Rightarrow> game" where "F = (\<lambda>h. let h1 = (if Some (gid h) = prev then h\<lparr>players := removeAll p (players h)\<rparr> else h)
                          in if gid h1 = gid t then h1\<lparr>players := players h1 @ [p]\<rparr> else h1)"
  have gs: "games s' = map F (games s)"
    using a by (auto simp: assignPlayer_def Let_def prev_def F_def addPlayer_def removePlayer_def
        split: if_splits option.splits)
  have inj: "inj_on gid (set (games s))"
    using wf by (simp add: wellFormed_def distinct_map)
  have "endedFrozen (F h) h" if h: "h \<in> set (games s)" for h
  proof (cases "gid h = gid t")
    case True
    with inj h t(1) have "h = t" by (auto dest: inj_onD)
    with t(2) show ?thesis by (simp add: endedFrozen_def F_def Let_def)
  next
    case False
    then show ?thesis by (auto simp: endedFrozen_def F_def Let_def)
  qed
  then show ?thesis
    unfolding gs by (simp add: list_all2_map1 list_all2_same)
qed

lemma endedFrozen_assign_case:
  assumes "wellFormed s" "t \<in> set (games s)" "\<not> hasEnded t"
  shows "list_all2 endedFrozen (games (case assignPlayer t p s of Inl e \<Rightarrow> s | Inr s' \<Rightarrow> s')) (games s)"
  using endedFrozen_assignPlayer[OF assms] endedFrozen_refl
  by (cases "assignPlayer t p s") auto

lemma endedFrozen_fillLoop:
  assumes "wellFormed s" "\<forall>g \<in> set gs. g \<in> set (games s) \<and> \<not> hasEnded g"
  shows "list_all2 endedFrozen (games (fillLoop gs p s)) (games s)"
  using assms(2)
  by (induction gs) (auto simp: Let_def endedFrozen_refl endedFrozen_assign_case[OF assms(1)])

lemma unstarted_subset: "g \<in> set (unstarted gs) \<Longrightarrow> g \<in> set gs \<and> \<not> hasEnded g"
  by (simp add: unstarted_def)

lemma endedFrozen_step:
  assumes wf: "wellFormed s"
  shows "list_all2 endedFrozen (games (step s e)) (games s)"
proof (cases e)
  case (Basic p)
  show ?thesis
  proof (cases "availableGames (games s)")
    case Nil
    then show ?thesis using Basic by (simp add: basicAssign_def endedFrozen_refl split: option.splits)
  next
    case (Cons t ts)
    then have "t \<in> set (availableGames (games s))" by simp
    then have "t \<in> set (games s)" "\<not> hasEnded t" by (simp_all add: availableGames_def)
    from endedFrozen_assign_case[OF wf this] show ?thesis
      using Basic Cons by (simp add: basicAssign_def endedFrozen_refl split: option.splits)
  qed
next
  case (Sequential p)
  have "\<forall>g \<in> set (sort_key gid (unstarted (games s))). g \<in> set (games s) \<and> \<not> hasEnded g"
    by (simp add: unstarted_def)
  from endedFrozen_fillLoop[OF wf this] show ?thesis
    using Sequential by (simp add: sequentialFill_def endedFrozen_refl split: option.splits)
next
  case (Random u p)
  define cands where "cands = filter (\<lambda>g. enat (length (players g)) =
      mathMin (map (\<lambda>g. length (players g)) (unstarted (games s)))) (unstarted (games s))"
  show ?thesis
  proof (cases "nthOpt cands \<lfloor>u * real (length cands)\<rfloor>")
    case None
    then show ?thesis using Random
      by (simp add: randomBalanced_def Let_def cands_def endedFrozen_refl split: option.splits)
  next
    case (Some t)
    then have "t \<in> set cands" by (rule nthOpt_Some_mem)
    then have "t \<in> set (games s)" "\<not> hasEnded t" by (simp_all add: cands_def unstarted_def)
    from endedFrozen_assign_case[OF wf this] show ?thesis
      using Random Some
      by (simp add: randomBalanced_def Let_def cands_def[symmetric] endedFrozen_refl split: option.splits)
  qed
next
  case (Attribute p)
  have "\<forall>g \<in> set (filter P (unstarted (games s))). g \<in> set (games s) \<and> \<not> hasEnded g" for P
    by (simp add: unstarted_def)
  from endedFrozen_fillLoop[OF wf this] show ?thesis
    using Attribute by (simp add: attributeMatch_def Let_def endedFrozen_refl split: option.splits)
next
  case (Conditional p)
  show ?thesis
  proof (cases "find (\<lambda>g. length (players g) < playerCount (treatment g)) (unstarted (games s))")
    case None
    then show ?thesis using Conditional
      by (simp add: conditionalAssign_def endedFrozen_refl split: option.splits)
  next
    case (Some t)
    then have "t \<in> set (unstarted (games s))" by (auto simp: find_Some_iff)
    then have "t \<in> set (games s)" "\<not> hasEnded t" by (simp_all add: unstarted_def)
    from endedFrozen_assignPlayer[OF wf this] show ?thesis
      using Conditional Some
      by (auto simp: conditionalAssign_def endedFrozen_refl split: option.splits sum.splits)
  qed
qed

lemma endedFrozen_run:
  "wellFormed s \<Longrightarrow> list_all2 endedFrozen (games (run s es)) (games s)"
proof (induction es arbitrary: s)
  case Nil
  then show ?case by (simp add: run_def endedFrozen_refl)
next
  case (Cons e es)
  have "list_all2 endedFrozen (games (run (step s e) es)) (games (step s e))"
    by (rule Cons.IH[OF wellFormed_step[OF Cons.prems]])
  from endedFrozen_trans[OF this endedFrozen_step[OF Cons.prems]]
  show ?case by (simp add: run_def)
qed

text \<open>
  Claim C8, as stated: the candidates are the sessions that are forming or running (that
  is, not ended) with unmet capacity. \<open>availableGames\<close> leaves out a game that has started:
  \<open>runningGame\<close> has not ended and has a free seat, and is no candidate, neither of the
  basic setup nor of the strategies' filter.
\<close>

theorem availableGames_excludes_running:
  "\<not> hasEnded runningGame \<and> hasStarted runningGame \<and> hasOpenSlot runningGame
   \<and> availableGames [runningGame] = [] \<and> unstarted [runningGame] = []"
  by (simp add: runningGame_def hasOpenSlot_def availableGames_def unstarted_def example_defs)

text \<open>
  Claim C8, amended. The candidates of the basic setup are exactly the games that have
  neither ended nor started and have fewer members than their capacity. An assignment
  to an ended game is rejected with \<open>SessionEnded\<close>, and through any run of the assignment
  callbacks from a well-formed state a game whose \<open>hasEnded\<close> flag is set gains no member
  (game by game: same id, same flag, and its members are among those it had).
\<close>

theorem candidates_unstarted_and_ended_frozen:
  assumes "wellFormed s"
  shows "set (availableGames gs) = {g \<in> set gs. \<not> hasEnded g \<and> \<not> hasStarted g \<and> hasOpenSlot g}
    \<and> (\<forall>g p s0. hasEnded g \<longrightarrow> assignPlayer g p s0 = Inl SessionEnded)
    \<and> list_all2 endedFrozen (games (run s es)) (games s)"
  using endedFrozen_run[OF assms] assignPlayer_ended
  by (auto simp: availableGames_def hasOpenSlot_def)

lemma wellFormed_replayState: "wellFormed replayState"
  by (simp add: wellFormed_def replayState_def memberOf_def lookupPlayer_def example_defs)

theorem candidates_unstarted_and_ended_frozen_witness:
  "wellFormed replayState
   \<and> map hasEnded (games replayState) = [True, False]
   \<and> availableGames (games replayState) = [exampleGame ''g2'' 2 []]
   \<and> assignPlayer (hd (games replayState)) ''p0'' replayState = Inl SessionEnded
   \<and> list_all2 endedFrozen (games (run replayState [Basic ''p0'', Sequential ''p0'']))
        (games replayState)
   \<and> map players (games (run replayState [Basic ''p0'', Sequential ''p0''])) = [[], [''p0'']]"
proof -
  note inst = candidates_unstarted_and_ended_frozen[OF wellFormed_replayState,
      of "games replayState" "[Basic ''p0'', Sequential ''p0'']"]
  have e: "hasEnded (hd (games replayState))"
    "map hasEnded (games replayState) = [True, False]"
    "availableGames (games replayState) = [exampleGame ''g2'' 2 []]"
    by (simp_all add: replayState_def availableGames_def example_defs)
  have r: "assignPlayer (hd (games replayState)) ''p0'' replayState = Inl SessionEnded"
    using inst[THEN conjunct2, THEN conjunct1] e(1) by blast
  have m: "map players (games (run replayState [Basic ''p0'', Sequential ''p0''])) = [[], [''p0'']]"
    by (simp add: replayState_def callback_defs example_defs)
  show ?thesis
    using wellFormed_replayState e r m inst[THEN conjunct2, THEN conjunct2] by simp
qed

section \<open>C7: what a strategy's decision depends on\<close>

lemma assignedGame_assign_case:
  "assignedGame (case assignPlayer t p s of Inl e \<Rightarrow> s | Inr s' \<Rightarrow> s') p =
     (if hasEnded t then assignedGame s p
      else (case lookupPlayer s p of None \<Rightarrow> None | Some pl \<Rightarrow> Some (gid t)))"
proof (cases "hasEnded t")
  case True
  then show ?thesis by (simp add: assignPlayer_def)
next
  case False
  then obtain s' where a: "assignPlayer t p s = Inr s'" using assignPlayer_Inr by blast
  show ?thesis
  proof (cases "lookupPlayer s p")
    case None
    from a have "lookupPlayer s' p = None"
      using None False by (auto simp: assignPlayer_def Let_def lookupPlayer_setPlayer)
    then show ?thesis using a None False by (simp add: assignedGame_def)
  next
    case (Some pl)
    from assignPlayer_lookup_same[OF Some a] show ?thesis
      using a Some False by (simp add: assignedGame_def)
  qed
qed

lemma assignedGame_setPlayer:
  assumes "\<And>r. pid (f r) = pid r" "\<And>r. gameID (f r) = gameID r"
  shows "assignedGame (setPlayer p f s) q = assignedGame s q"
  using assms by (auto simp: assignedGame_def lookupPlayer_setPlayer split: option.splits)

lemma assignedGame_fillLoop:
  assumes "lookupPlayer s p = lookupPlayer s' p"
  shows "assignedGame (fillLoop gs p s) p = assignedGame (fillLoop gs p s') p"
proof -
  have ag: "assignedGame s p = assignedGame s' p"
    using assms by (simp add: assignedGame_def)
  show ?thesis
    by (induction gs) (simp_all add: Let_def assignedGame_assign_case ag assms)
qed

lemma assignedGame_conditional_case:
  "assignedGame (case assignPlayer t p s of Inl e \<Rightarrow> s
                 | Inr s' \<Rightarrow> setPlayer p (\<lambda>q. q\<lparr>waitingReason := w\<rparr>) s') p =
   assignedGame (case assignPlayer t p s of Inl e \<Rightarrow> s | Inr s' \<Rightarrow> s') p"
  by (cases "assignPlayer t p s") (simp_all add: assignedGame_setPlayer)

text \<open>
  Claim C7, as stated: two invocations on identical inputs yield the identical decision.
  Strategy 2 draws \<^verbatim>\<open>Math.random()\<close>: for the same player and the same two empty games,
  the draw \<open>0\<close> sends the player to \<open>g1\<close> and the draw \<open>1/2\<close> to \<open>g2\<close>.
\<close>

theorem randomBalanced_depends_on_draw:
  "assignedGame (randomBalanced 0 ''p1'' twoEmpty) ''p1'' = Some ''g1''
   \<and> assignedGame (randomBalanced (1/2) ''p1'' twoEmpty) ''p1'' = Some ''g2''"
  by (simp add: assignedGame_def twoEmpty_def callback_defs example_defs)

text \<open>
  Claim C7, amended. The decision of Strategies 1, 3 and 4 for a participant (the game
  its \<open>gameID\<close> names after the callback) is a function of the participant's record and the
  list of unstarted games alone: two states that agree on both give the same decision,
  whatever else they hold. The decision of Strategy 2 is such a function of the same
  inputs together with the random draw.
\<close>

theorem decision_depends_on_inputs_only:
  assumes "lookupPlayer s p = lookupPlayer s' p" "unstarted (games s) = unstarted (games s')"
  shows "assignedGame (sequentialFill p s) p = assignedGame (sequentialFill p s') p
    \<and> assignedGame (attributeMatch p s) p = assignedGame (attributeMatch p s') p
    \<and> assignedGame (conditionalAssign p s) p = assignedGame (conditionalAssign p s') p
    \<and> (\<forall>u. assignedGame (randomBalanced u p s) p = assignedGame (randomBalanced u p s') p)"
proof (intro conjI allI)
  have ag: "assignedGame s p = assignedGame s' p"
    using assms(1) by (simp add: assignedGame_def)
  show "assignedGame (sequentialFill p s) p = assignedGame (sequentialFill p s') p"
    using assms ag assignedGame_fillLoop[OF assms(1)]
    by (simp add: sequentialFill_def split: option.splits)
  show "assignedGame (attributeMatch p s) p = assignedGame (attributeMatch p s') p"
    using assms ag assignedGame_fillLoop[OF assms(1)]
    by (simp add: attributeMatch_def Let_def split: option.splits)
  show "assignedGame (conditionalAssign p s) p = assignedGame (conditionalAssign p s') p"
    using assms ag
    by (simp add: conditionalAssign_def assignedGame_setPlayer assignedGame_conditional_case
        assignedGame_assign_case split: option.splits)
  show "assignedGame (randomBalanced u p s) p = assignedGame (randomBalanced u p s') p" for u
    using assms ag
    by (simp add: randomBalanced_def Let_def assignedGame_assign_case split: option.splits)
qed

theorem decision_depends_on_inputs_only_witness:
  "lookupPlayer twoEmpty ''p1'' = lookupPlayer twoEmptyLater ''p1''
   \<and> unstarted (games twoEmpty) = unstarted (games twoEmptyLater)
   \<and> twoEmpty \<noteq> twoEmptyLater
   \<and> assignedGame (sequentialFill ''p1'' twoEmpty) ''p1'' = Some ''g1''
   \<and> assignedGame (sequentialFill ''p1'' twoEmptyLater) ''p1'' = Some ''g1''
   \<and> assignedGame (randomBalanced (1/2) ''p1'' twoEmptyLater) ''p1'' = Some ''g2''"
proof -
  have l: "lookupPlayer twoEmpty ''p1'' = lookupPlayer twoEmptyLater ''p1''"
    by (simp add: twoEmpty_def twoEmptyLater_def lookupPlayer_def example_defs)
  have g: "unstarted (games twoEmpty) = unstarted (games twoEmptyLater)"
    by (simp add: twoEmpty_def twoEmptyLater_def unstarted_def example_defs)
  have ne: "twoEmpty \<noteq> twoEmptyLater"
    by (simp add: twoEmpty_def twoEmptyLater_def)
  have a: "assignedGame (sequentialFill ''p1'' twoEmpty) ''p1'' = Some ''g1''"
    by (simp add: assignedGame_def twoEmpty_def callback_defs example_defs)
  note inst = decision_depends_on_inputs_only[OF l g]
  have b: "assignedGame (sequentialFill ''p1'' twoEmptyLater) ''p1'' = Some ''g1''"
    using inst[THEN conjunct1] a by simp
  have "assignedGame (randomBalanced (1/2) ''p1'' twoEmpty) ''p1'' = Some ''g2''"
    by (simp add: assignedGame_def twoEmpty_def callback_defs example_defs)
  then have c: "assignedGame (randomBalanced (1/2) ''p1'' twoEmptyLater) ''p1'' = Some ''g2''"
    using inst[THEN conjunct2, THEN conjunct2, THEN conjunct2, rule_format, of "1/2"] by simp
  show ?thesis using l g ne a b c by simp
qed

section \<open>C4: load-balanced random\<close>

lemma fold_min_enat:
  "fold (\<lambda>x m. min (enat x) m) xs a = (if xs = [] then a else min (enat (Min (set xs))) a)"
proof (induction xs arbitrary: a)
  case Nil
  then show ?case by simp
next
  case (Cons x xs)
  show ?case
  proof (cases "xs = []")
    case True
    then show ?thesis by simp
  next
    case False
    then have "Min (set (x # xs)) = min x (Min (set xs))" by simp
    moreover have "min (enat (Min (set xs))) (min (enat x) a) = min (enat (min x (Min (set xs)))) a"
      by (cases a) (auto simp: min_def)
    ultimately show ?thesis using False Cons.IH[of "min (enat x) a"]
      by simp
  qed
qed

lemma mathMin_eq: "xs \<noteq> [] \<Longrightarrow> mathMin xs = enat (Min (set xs))"
  by (simp add: mathMin_def fold_min_enat)

lemma floor_index:
  assumes "0 \<le> u" "u < 1" "0 < n"
  shows "0 \<le> \<lfloor>u * real n\<rfloor>" "\<lfloor>u * real n\<rfloor> < int n"
    "nat \<lfloor>u * real n\<rfloor> = j \<longleftrightarrow> real j / real n \<le> u \<and> u < real (Suc j) / real n"
proof -
  have nn: "0 \<le> u * real n" using assms by simp
  then show f0: "0 \<le> \<lfloor>u * real n\<rfloor>" by simp
  have "u * real n < real n" using assms by simp
  then show "\<lfloor>u * real n\<rfloor> < int n" by (simp add: floor_less_iff)
  have "nat \<lfloor>u * real n\<rfloor> = j \<longleftrightarrow> \<lfloor>u * real n\<rfloor> = int j"
    using f0 by auto
  also have "\<dots> \<longleftrightarrow> real j \<le> u * real n \<and> u * real n < real j + 1"
    by (simp add: floor_eq_iff)
  also have "\<dots> \<longleftrightarrow> real j / real n \<le> u \<and> u < real (Suc j) / real n"
    using assms(3) by (simp add: pos_divide_le_eq pos_less_divide_eq add.commute)
  finally show "nat \<lfloor>u * real n\<rfloor> = j \<longleftrightarrow> real j / real n \<le> u \<and> u < real (Suc j) / real n" .
qed

lemma underassigned_eq:
  assumes "gs \<noteq> []"
  shows "filter (\<lambda>g. enat (length (players g)) = mathMin (map (\<lambda>g. length (players g)) gs)) gs
           = underassigned gs"
  using assms by (simp add: mathMin_eq underassigned_def minOccupancy_def)

lemma minOccupancy_le: "g \<in> set gs \<Longrightarrow> minOccupancy gs \<le> length (players g)"
  by (simp add: minOccupancy_def)

lemma underassigned_nonempty: "gs \<noteq> [] \<Longrightarrow> underassigned gs \<noteq> []"
proof -
  assume "gs \<noteq> []"
  then have "Min ((\<lambda>g. length (players g)) ` set gs) \<in> (\<lambda>g. length (players g)) ` set gs"
    by (intro Min_in) auto
  then obtain g where "g \<in> set gs" "length (players g) = minOccupancy gs"
    by (auto simp: minOccupancy_def)
  then show ?thesis by (auto simp: underassigned_def filter_empty_conv)
qed

lemma underassigned_mem:
  "t \<in> set (underassigned gs) \<Longrightarrow> t \<in> set gs \<and> (\<forall>h \<in> set gs. length (players t) \<le> length (players h))"
  by (auto simp: underassigned_def minOccupancy_le)

lemma randomBalanced_selects:
  assumes l: "lookupPlayer s p = Some pl" and nt: "\<not> truthy (gameID pl)"
    and ne: "unstarted (games s) \<noteq> []" and u: "0 \<le> u" "u < 1"
  shows "nat \<lfloor>u * real (length (underassigned (unstarted (games s))))\<rfloor>
           < length (underassigned (unstarted (games s)))"
    and "assignPlayer
           (underassigned (unstarted (games s)) !
              nat \<lfloor>u * real (length (underassigned (unstarted (games s))))\<rfloor>) p s
         = Inr (randomBalanced u p s)"
proof -
  let ?c = "underassigned (unstarted (games s))"
  let ?i = "\<lfloor>u * real (length ?c)\<rfloor>"
  have n: "0 < length ?c" using underassigned_nonempty[OF ne] by simp
  from floor_index(1,2)[OF u n] show i: "nat ?i < length ?c" by (simp add: nat_less_iff)
  have nth: "nthOpt ?c ?i = Some (?c ! nat ?i)"
    using floor_index(1,2)[OF u n] by (simp add: nthOpt_def)
  have "?c ! nat ?i \<in> set ?c" using i by simp
  then have "\<not> hasEnded (?c ! nat ?i)"
    using underassigned_mem unstarted_subset by blast
  then obtain s' where a: "assignPlayer (?c ! nat ?i) p s = Inr s'"
    using assignPlayer_Inr by blast
  have "randomBalanced u p s = s'"
    using l nt nth a by (simp add: randomBalanced_def Let_def underassigned_eq[OF ne])
  with a show "assignPlayer (?c ! nat ?i) p s = Inr (randomBalanced u p s)" by simp
qed

lemma assign_waiting_games:
  assumes wf: "wellFormed s" and l: "lookupPlayer s p = Some pl" and nt: "\<not> truthy (gameID pl)"
    and t: "t \<in> set (games s)" and a: "assignPlayer t p s = Inr s'"
  shows "games s' = map (\<lambda>h. if h = t then h\<lparr>players := players h @ [p]\<rparr> else h) (games s)"
proof -
  have noempty: "\<forall>g \<in> set (games s). gid g \<noteq> []"
    using wf by (simp add: wellFormed_def)
  have det: "(case gameID pl of None \<Rightarrow> games s | Some old \<Rightarrow> removePlayer old p (games s)) = games s"
  proof (cases "gameID pl")
    case None
    then show ?thesis by simp
  next
    case (Some old)
    with nt have "old = []" by (simp add: truthy_def)
    then have "removePlayer old p (games s) = games s"
      unfolding removePlayer_def using noempty by (intro map_idI) auto
    with Some show ?thesis by simp
  qed
  have inj: "inj_on gid (set (games s))"
    using wf by (simp add: wellFormed_def distinct_map)
  have "games s' = addPlayer (gid t) p (games s)"
    using a l det by (auto simp: assignPlayer_def Let_def split: if_splits)
  also have "\<dots> = map (\<lambda>h. if h = t then h\<lparr>players := players h @ [p]\<rparr> else h) (games s)"
    unfolding addPlayer_def using inj t by (intro map_cong) (auto dest: inj_onD)
  finally show ?thesis .
qed

lemma unstarted_map:
  assumes "\<And>h. hasEnded (F h) = hasEnded h" "\<And>h. hasStarted (F h) = hasStarted h"
  shows "unstarted (map F gs) = map F (unstarted gs)"
  unfolding unstarted_def by (induction gs) (simp_all add: assms)

lemma balanced_add_to_min:
  assumes b: "balanced gs" and t: "t \<in> set gs" "\<forall>h \<in> set gs. length (players t) \<le> length (players h)"
  shows "balanced (map (\<lambda>h. if h = t then h\<lparr>players := players h @ [p]\<rparr> else h) gs)"
proof -
  define F :: "game \<Rightarrow> game" where "F = (\<lambda>h. if h = t then h\<lparr>players := players h @ [p]\<rparr> else h)"
  have len: "length (players (F h)) = (if h = t then Suc (length (players h)) else length (players h))" for h
    by (simp add: F_def)
  have "length (players (F g)) \<le> Suc (length (players (F h)))" if g: "g \<in> set gs" and h: "h \<in> set gs" for g h
  proof -
    have "length (players g) \<le> Suc (length (players t))"
      using b g t(1) by (simp add: balanced_def)
    moreover have "length (players t) \<le> length (players h)"
      using t(2) h by simp
    ultimately show ?thesis
      unfolding len by (cases "g = t"; cases "h = t") simp_all
  qed
  then have "balanced (map F gs)"
    unfolding balanced_def set_map by blast
  then show ?thesis by (simp only: F_def)
qed

lemma balanced_randomBalanced:
  assumes wf: "wellFormed s" and b: "balanced (unstarted (games s))"
  shows "balanced (unstarted (games (randomBalanced u p s)))"
proof (cases "lookupPlayer s p")
  case None
  then show ?thesis using b by (simp add: randomBalanced_def)
next
  case (Some pl)
  show ?thesis
  proof (cases "truthy (gameID pl)")
    case True
    then show ?thesis using b Some by (simp add: randomBalanced_def)
  next
    case nt: False
    show ?thesis
    proof (cases "unstarted (games s) = []")
      case True
      then show ?thesis using b Some nt by (simp add: randomBalanced_def Let_def nthOpt_def)
    next
      case ne: False
      let ?c = "underassigned (unstarted (games s))"
      show ?thesis
      proof (cases "nthOpt ?c \<lfloor>u * real (length ?c)\<rfloor>")
        case None
        then show ?thesis using b Some nt
          by (simp add: randomBalanced_def Let_def underassigned_eq[OF ne])
      next
        case (Some t)
        then have tc: "t \<in> set ?c" by (rule nthOpt_Some_mem)
        from underassigned_mem[OF tc] have to: "t \<in> set (unstarted (games s))"
          and tmin: "\<forall>h \<in> set (unstarted (games s)). length (players t) \<le> length (players h)"
          by auto
        from unstarted_subset[OF to] have tg: "t \<in> set (games s)" "\<not> hasEnded t" by auto
        then obtain s' where a: "assignPlayer t p s = Inr s'" using assignPlayer_Inr by blast
        have r: "randomBalanced u p s = s'"
          using \<open>lookupPlayer s p = Some pl\<close> nt Some a
          by (simp add: randomBalanced_def Let_def underassigned_eq[OF ne])
        have "unstarted (games s') =
                map (\<lambda>h. if h = t then h\<lparr>players := players h @ [p]\<rparr> else h) (unstarted (games s))"
          unfolding assign_waiting_games[OF wf \<open>lookupPlayer s p = Some pl\<close> nt tg(1) a]
          by (rule unstarted_map) simp_all
        then show ?thesis
          unfolding r using balanced_add_to_min[OF b to tmin] by simp
      qed
    qed
  qed
qed

lemma balanced_run:
  assumes "wellFormed s" "balanced (unstarted (games s))"
  shows "balanced (unstarted (games (run s (randomArrivals as))))"
  using assms
proof (induction as arbitrary: s)
  case Nil
  then show ?case by (simp add: run_def randomArrivals_def)
next
  case (Cons a as)
  obtain u p where a: "a = (u, p)" by (cases a)
  have "balanced (unstarted (games (run (randomBalanced u p s) (randomArrivals as))))"
    by (intro Cons.IH wellFormed_randomBalanced balanced_randomBalanced Cons.prems)
  then show ?case by (simp add: run_def randomArrivals_def a)
qed

lemma balanced_spread:
  assumes "balanced gs" "gs \<noteq> []"
  shows "maxOccupancy gs - minOccupancy gs \<le> 1"
proof -
  have fin: "finite ((\<lambda>g. length (players g)) ` set gs)" "(\<lambda>g. length (players g)) ` set gs \<noteq> {}"
    using assms(2) by auto
  from Max_in[OF fin] obtain g where g: "g \<in> set gs" "maxOccupancy gs = length (players g)"
    by (auto simp: maxOccupancy_def)
  from Min_in[OF fin] obtain h where h: "h \<in> set gs" "minOccupancy gs = length (players h)"
    by (auto simp: minOccupancy_def)
  from assms(1) g(1) h(1) have "length (players g) \<le> Suc (length (players h))"
    by (simp add: balanced_def)
  then show ?thesis using g(2) h(2) by simp
qed

lemma empty_balanced: "\<forall>g \<in> set gs. players g = [] \<Longrightarrow> balanced gs"
  by (simp add: balanced_def)

lemma underassigned_set:
  "set (underassigned gs) = {g \<in> set gs. \<forall>h \<in> set gs. length (players g) \<le> length (players h)}"
proof (cases "gs = []")
  case True
  then show ?thesis by (simp add: underassigned_def)
next
  case False
  have "length (players g) = minOccupancy gs \<longleftrightarrow> (\<forall>h \<in> set gs. length (players g) \<le> length (players h))"
    if "g \<in> set gs" for g
  proof
    assume "length (players g) = minOccupancy gs"
    then show "\<forall>h \<in> set gs. length (players g) \<le> length (players h)"
      by (simp add: minOccupancy_le)
  next
    assume "\<forall>h \<in> set gs. length (players g) \<le> length (players h)"
    then have "length (players g) \<le> minOccupancy gs"
      using False by (simp add: minOccupancy_def)
    with minOccupancy_le[OF that] show "length (players g) = minOccupancy gs" by simp
  qed
  then show ?thesis by (auto simp: underassigned_def)
qed

text \<open>
  Claim C4. For a participant without a game and a non-empty list of unstarted games,
  Strategy 2 restricts the candidates to exactly the games whose member count is the
  minimum over the unstarted games, and assigns the participant to the candidate of
  index \<open>\<lfloor>u n\<rfloor>\<close>, for \<open>n\<close> candidates and the draw \<open>u\<close> of \<^verbatim>\<open>Math.random()\<close>: candidate \<open>j\<close>
  is chosen exactly for the draws in \<open>[j/n, (j+1)/n)\<close>, an interval of length \<open>1/n\<close> for
  each, so a uniform draw makes a uniform choice. Consequently, in a well-formed state,
  arrivals under Strategy 2 keep the unstarted games balanced, and when the games start
  empty the largest member count exceeds the smallest by at most 1 after any number of
  arrivals, whatever the draws.
\<close>

theorem randomBalanced_min_occupancy_and_balance:
  "(\<forall>pl. lookupPlayer s p = Some pl \<and> \<not> truthy (gameID pl) \<and> unstarted (games s) \<noteq> [] \<and>
         0 \<le> u \<and> u < 1 \<longrightarrow>
       set (underassigned (unstarted (games s)))
         = {g \<in> set (unstarted (games s)).
              \<forall>h \<in> set (unstarted (games s)). length (players g) \<le> length (players h)} \<and>
       nat \<lfloor>u * real (length (underassigned (unstarted (games s))))\<rfloor>
         < length (underassigned (unstarted (games s))) \<and>
       assignPlayer
         (underassigned (unstarted (games s)) !
            nat \<lfloor>u * real (length (underassigned (unstarted (games s))))\<rfloor>) p s
         = Inr (randomBalanced u p s) \<and>
       (\<forall>j. nat \<lfloor>u * real (length (underassigned (unstarted (games s))))\<rfloor> = j \<longleftrightarrow>
            real j / real (length (underassigned (unstarted (games s)))) \<le> u \<and>
            u < real (Suc j) / real (length (underassigned (unstarted (games s))))))
   \<and> (wellFormed s \<and> balanced (unstarted (games s)) \<longrightarrow>
         balanced (unstarted (games (run s (randomArrivals as)))))
   \<and> (wellFormed s \<and> (\<forall>g \<in> set (unstarted (games s)). players g = []) \<and>
        unstarted (games (run s (randomArrivals as))) \<noteq> [] \<longrightarrow>
         maxOccupancy (unstarted (games (run s (randomArrivals as))))
           - minOccupancy (unstarted (games (run s (randomArrivals as)))) \<le> 1)"
proof (intro conjI allI impI)
  fix pl
  assume h: "lookupPlayer s p = Some pl \<and> \<not> truthy (gameID pl) \<and> unstarted (games s) \<noteq> [] \<and>
         0 \<le> u \<and> u < 1"
  show "set (underassigned (unstarted (games s)))
         = {g \<in> set (unstarted (games s)).
              \<forall>h \<in> set (unstarted (games s)). length (players g) \<le> length (players h)}"
    by (rule underassigned_set)
  from h show "nat \<lfloor>u * real (length (underassigned (unstarted (games s))))\<rfloor>
         < length (underassigned (unstarted (games s)))"
    by (intro randomBalanced_selects(1)) auto
  from h show "assignPlayer
         (underassigned (unstarted (games s)) !
            nat \<lfloor>u * real (length (underassigned (unstarted (games s))))\<rfloor>) p s
         = Inr (randomBalanced u p s)"
    by (intro randomBalanced_selects(2)) auto
  from h have "0 < length (underassigned (unstarted (games s)))"
    using underassigned_nonempty by auto
  with h show "nat \<lfloor>u * real (length (underassigned (unstarted (games s))))\<rfloor> = j \<longleftrightarrow>
            real j / real (length (underassigned (unstarted (games s)))) \<le> u \<and>
            u < real (Suc j) / real (length (underassigned (unstarted (games s))))" for j
    by (intro floor_index(3)) auto
next
  assume "wellFormed s \<and> balanced (unstarted (games s))"
  then show "balanced (unstarted (games (run s (randomArrivals as))))"
    by (intro balanced_run) auto
next
  assume h: "wellFormed s \<and> (\<forall>g \<in> set (unstarted (games s)). players g = []) \<and>
        unstarted (games (run s (randomArrivals as))) \<noteq> []"
  then have "balanced (unstarted (games s))" by (intro empty_balanced) auto
  with h have "balanced (unstarted (games (run s (randomArrivals as))))"
    by (intro balanced_run) auto
  with h show "maxOccupancy (unstarted (games (run s (randomArrivals as))))
           - minOccupancy (unstarted (games (run s (randomArrivals as)))) \<le> 1"
    by (intro balanced_spread) auto
qed

lemma wellFormed_fourArrivals: "wellFormed fourArrivals"
  by (simp add: wellFormed_def fourArrivals_def memberOf_def lookupPlayer_def example_defs)

theorem randomBalanced_min_occupancy_and_balance_witness:
  "lookupPlayer fourArrivals ''p1'' = Some (examplePlayer ''p1'' None)
   \<and> \<not> truthy (gameID (examplePlayer ''p1'' None))
   \<and> unstarted (games fourArrivals) \<noteq> []
   \<and> underassigned (unstarted (games fourArrivals)) = [exampleGame ''g1'' 2 [], exampleGame ''g2'' 2 []]
   \<and> assignPlayer (exampleGame ''g2'' 2 []) ''p1'' fourArrivals
        = Inr (randomBalanced (3/4) ''p1'' fourArrivals)
   \<and> wellFormed fourArrivals
   \<and> map players (games fourArrivals) = [[], []]
   \<and> occupancy (run fourArrivals
        (randomArrivals [(0, ''p1''), (1/2, ''p2''), (9/10, ''p3''), (3/10, ''p4'')]))
        = [(''g1'', 2, 2), (''g2'', 2, 2)]
   \<and> maxOccupancy (unstarted (games (run fourArrivals
        (randomArrivals [(0, ''p1''), (1/2, ''p2''), (9/10, ''p3''), (3/10, ''p4'')]))))
       - minOccupancy (unstarted (games (run fourArrivals
        (randomArrivals [(0, ''p1''), (1/2, ''p2''), (9/10, ''p3''), (3/10, ''p4'')])))) \<le> 1"
proof -
  let ?as = "[(0, ''p1''), (1/2, ''p2''), (9/10, ''p3''), (3/10, ''p4'')] :: (real \<times> ident) list"
  have l: "lookupPlayer fourArrivals ''p1'' = Some (examplePlayer ''p1'' None)"
    by (simp add: fourArrivals_def lookupPlayer_def example_defs)
  have t: "\<not> truthy (gameID (examplePlayer ''p1'' None))"
    by (simp add: truthy_def example_defs)
  have ne: "unstarted (games fourArrivals) \<noteq> []"
    by (simp add: fourArrivals_def unstarted_def example_defs)
  have c: "underassigned (unstarted (games fourArrivals)) = [exampleGame ''g1'' 2 [], exampleGame ''g2'' 2 []]"
    by (simp add: underassigned_def minOccupancy_def fourArrivals_def unstarted_def example_defs)
  note sel = randomBalanced_min_occupancy_and_balance[of fourArrivals "''p1''" "3/4" ?as,
      THEN conjunct1, rule_format, of "examplePlayer ''p1'' None"]
  have a: "assignPlayer (exampleGame ''g2'' 2 []) ''p1'' fourArrivals
        = Inr (randomBalanced (3/4) ''p1'' fourArrivals)"
    using sel l t ne by (simp add: c)
  have e: "map players (games fourArrivals) = [[], []]"
    "\<forall>g \<in> set (unstarted (games fourArrivals)). players g = []"
    by (simp_all add: fourArrivals_def unstarted_def example_defs)
  have r: "games (run fourArrivals (randomArrivals ?as))
             = [exampleGame ''g1'' 2 [''p1'', ''p4''], exampleGame ''g2'' 2 [''p2'', ''p3'']]"
    by (simp add: randomArrivals_def fourArrivals_def callback_defs example_defs)
  have o: "occupancy (run fourArrivals (randomArrivals ?as)) = [(''g1'', 2, 2), (''g2'', 2, 2)]"
    by (simp add: occupancy_def r example_defs)
  have ne': "unstarted (games (run fourArrivals (randomArrivals ?as))) \<noteq> []"
    by (simp add: r unstarted_def example_defs)
  have sp: "maxOccupancy (unstarted (games (run fourArrivals (randomArrivals ?as))))
       - minOccupancy (unstarted (games (run fourArrivals (randomArrivals ?as)))) \<le> 1"
    using randomBalanced_min_occupancy_and_balance[of fourArrivals "''p1''" "3/4" ?as,
      THEN conjunct2, THEN conjunct2] wellFormed_fourArrivals e(2) ne' by blast
  show ?thesis using l t ne c a wellFormed_fourArrivals e(1) o sp by simp
qed

section \<open>C6: bracketed group matching\<close>

lemma setPlayer_eq:
  "setPlayer p f s = s\<lparr>playerScopes := map (\<lambda>q. if pid q = p then f q else q) (playerScopes s)\<rparr>"
  by (simp add: setPlayer_def)

lemma removePlayer_no_game:
  "\<forall>h \<in> set gs. gid h \<noteq> old \<Longrightarrow> removePlayer old p gs = gs"
  unfolding removePlayer_def by (intro map_idI) auto

lemma assignPlayer_waiting:
  assumes "\<not> hasEnded g" "waiting s x" "\<forall>h \<in> set (games s). gid h \<noteq> []"
  shows "assignPlayer g x s =
           Inr (s\<lparr>games := addPlayer (gid g) x (games s),
                  playerScopes := map (\<lambda>r. if pid r = x then joined g r else r) (playerScopes s)\<rparr>)"
proof -
  define prev where "prev = (case lookupPlayer s x of None \<Rightarrow> None | Some pl \<Rightarrow> gameID pl)"
  have "(case prev of None \<Rightarrow> games s | Some old \<Rightarrow> removePlayer old x (games s)) = games s"
  proof (cases prev)
    case None
    then show ?thesis by simp
  next
    case (Some old)
    with assms(2) have "old = []"
      by (auto simp: prev_def waiting_def truthy_def split: option.splits)
    with Some assms(3) show ?thesis by (simp add: removePlayer_no_game)
  qed
  then show ?thesis
    using assms(1) unfolding assignPlayer_def Let_def prev_def[symmetric]
    by (simp add: setPlayer_eq joined_def[abs_def])
qed

lemma waiting_other:
  assumes "waiting s y" "y \<noteq> x" "\<And>r. pid (f r) = pid r"
  shows "waiting (s\<lparr>games := gs, playerScopes := map (\<lambda>r. if pid r = x then f r else r) (playerScopes s)\<rparr>) y"
proof -
  have "lookupPlayer (s\<lparr>games := gs, playerScopes := map (\<lambda>r. if pid r = x then f r else r) (playerScopes s)\<rparr>) y
          = lookupPlayer (setPlayer x f s) y"
    by (simp add: lookupPlayer_def setPlayer_def)
  also have "\<dots> = lookupPlayer s y"
    using assms(2,3) by (simp add: lookupPlayer_setPlayer_other)
  finally show ?thesis using assms(1) by (simp add: waiting_def)
qed

lemma pid_joined [simp]: "pid (joined g r) = pid r"
  by (simp add: joined_def)

lemma assignBracket_closed:
  assumes "\<not> hasEnded g" "distinct (map pid qs)" "\<forall>q \<in> set qs. waiting s (pid q)"
    "\<forall>h \<in> set (games s). gid h \<noteq> []"
  shows "assignBracket g qs s =
           Inr (s\<lparr>games := map (\<lambda>h. if gid h = gid g then h\<lparr>players := players h @ map pid qs\<rparr> else h) (games s),
                  playerScopes := map (\<lambda>r. if pid r \<in> pid ` set qs then joined g r else r) (playerScopes s)\<rparr>)"
  using assms(2-)
proof (induction qs arbitrary: s)
  case Nil
  have g: "map (\<lambda>h. if gid h = gid g then h\<lparr>players := players h @ map pid []\<rparr> else h) (games s) = games s"
    by (intro map_idI) simp
  have p: "map (\<lambda>r. if pid r \<in> pid ` set [] then joined g r else r) (playerScopes s) = playerScopes s"
    by (intro map_idI) simp
  show ?case unfolding g p by simp
next
  case (Cons q qs)
  let ?s1 = "s\<lparr>games := addPlayer (gid g) (pid q) (games s),
                playerScopes := map (\<lambda>r. if pid r = pid q then joined g r else r) (playerScopes s)\<rparr>"
  have a: "assignPlayer g (pid q) s = Inr ?s1"
    using assms(1) Cons.prems by (intro assignPlayer_waiting) auto
  have w: "\<forall>q' \<in> set qs. waiting ?s1 (pid q')"
  proof
    fix q' assume q': "q' \<in> set qs"
    with Cons.prems(1) have "pid q' \<noteq> pid q" by (auto simp: image_iff)
    moreover from Cons.prems(2) q' have "waiting s (pid q')" by simp
    ultimately show "waiting ?s1 (pid q')" by (intro waiting_other) auto
  qed
  have ids: "\<forall>h \<in> set (games ?s1). gid h \<noteq> []"
    using Cons.prems(3) by (auto simp: addPlayer_def)
  have d: "distinct (map pid qs)" using Cons.prems(1) by simp
  have nq: "pid q \<notin> pid ` set qs" using Cons.prems(1) by auto
  have g: "map (\<lambda>h. if gid h = gid g then h\<lparr>players := players h @ map pid qs\<rparr> else h)
             (addPlayer (gid g) (pid q) (games s))
           = map (\<lambda>h. if gid h = gid g then h\<lparr>players := players h @ map pid (q # qs)\<rparr> else h) (games s)"
    by (simp add: addPlayer_def)
  have p: "(\<lambda>r. if pid r \<in> pid ` set qs then joined g r else r) \<circ>
             (\<lambda>r. if pid r = pid q then joined g r else r)
           = (\<lambda>r. if pid r = pid q \<or> pid r \<in> pid ` set qs then joined g r else r)"
    using nq by (auto simp: fun_eq_iff)
  show ?case
    using a Cons.IH[OF d w ids] by (simp add: g p)
qed

lemma lookupPlayer_map:
  assumes "playerScopes s' = map F (playerScopes s)" "\<And>r. pid (F r) = pid r"
  shows "lookupPlayer s' y = map_option F (lookupPlayer s y)"
  unfolding lookupPlayer_def assms(1) using assms(2) by (rule find_map_pid)

lemma waiting_frame:
  assumes "playerScopes s' = map F (playerScopes s)" "\<And>r. pid (F r) = pid r"
    "\<And>r. pid r = y \<Longrightarrow> F r = r" "waiting s y"
  shows "waiting s' y"
proof (cases "lookupPlayer s y")
  case None
  then show ?thesis by (simp add: waiting_def lookupPlayer_map[OF assms(1,2)])
next
  case (Some r)
  with lookupPlayer_pid[OF Some] assms(3,4) show ?thesis
    by (simp add: waiting_def lookupPlayer_map[OF assms(1,2)])
qed

lemma pid_seatAll [simp]: "pid (seatAll newID b c brs r) = pid r"
  by (induction brs arbitrary: c) simp_all

lemma seatAll_outside:
  "\<forall>br \<in> set brs. pid r \<notin> pid ` set br \<Longrightarrow> seatAll newID b c brs r = r"
  by (induction brs arbitrary: c) simp_all

lemma joined_bracketGame:
  "joined \<lparr>gid = newID c, hasEnded = False, hasStarted = False,
            treatment = \<lparr>playerCount = requiredPlayers\<rparr>, treatmentName = None, batchID = bid b,
            requiredSkillLevel = None, averageSkillRating = avg, players = []\<rparr>
     = joined (bracketGame newID b c br)"
  by (simp add: joined_def[abs_def] bracketGame_def)

lemma bracket_step:
  assumes fr: "freshIds newID s" and d: "distinct (map pid br)" and w: "\<forall>q \<in> set br. waiting s (pid q)"
  shows "assignBracket
           (fst (addGame newID b \<lparr>playerCount = requiredPlayers\<rparr>
                   (Some (real_of_int (sum_list (map ratingOf br)) / real (length br))) s))
           br
           (snd (addGame newID b \<lparr>playerCount = requiredPlayers\<rparr>
                   (Some (real_of_int (sum_list (map ratingOf br)) / real (length br))) s))
         = Inr (seated newID b [br] s)"
proof -
  let ?avg = "Some (real_of_int (sum_list (map ratingOf br)) / real (length br))"
  let ?g = "\<lparr>gid = newID (created s), hasEnded = False, hasStarted = False,
            treatment = \<lparr>playerCount = requiredPlayers\<rparr>, treatmentName = None, batchID = bid b,
            requiredSkillLevel = None, averageSkillRating = ?avg, players = []\<rparr>"
  let ?s1 = "s\<lparr>games := games s @ [?g], created := Suc (created s)\<rparr>"
  have ag: "addGame newID b \<lparr>playerCount = requiredPlayers\<rparr> ?avg s = (?g, ?s1)"
    by (simp add: addGame_def Let_def)
  from fr have "newID (created s) \<noteq> [] \<and> newID (created s) \<notin> gid ` set (games s)"
    by (simp add: freshIds_def)
  then have fresh: "newID (created s) \<noteq> []" "\<forall>h \<in> set (games s). gid h \<noteq> newID (created s)"
    by (auto simp: image_iff)
  from fr have fresh3: "\<forall>h \<in> set (games s). gid h \<noteq> []"
    by (simp add: freshIds_def)
  have w1: "\<forall>q \<in> set br. waiting ?s1 (pid q)"
    using w by (simp add: waiting_def lookupPlayer_def)
  have ids: "\<forall>h \<in> set (games ?s1). gid h \<noteq> []"
    using fresh(1) fresh3 by auto
  have ne: "\<not> hasEnded ?g" by simp
  have old: "map (\<lambda>h. if gid h = newID (created s) then h\<lparr>players := players h @ map pid br\<rparr> else h) (games s)
               = games s"
    using fresh(2) by (intro map_idI) auto
  have "assignBracket ?g br ?s1 =
          Inr (?s1\<lparr>games := map (\<lambda>h. if gid h = gid ?g then h\<lparr>players := players h @ map pid br\<rparr> else h) (games ?s1),
                  playerScopes := map (\<lambda>r. if pid r \<in> pid ` set br then joined ?g r else r) (playerScopes ?s1)\<rparr>)"
    by (rule assignBracket_closed[OF ne d w1 ids])
  also have "\<dots> = Inr (seated newID b [br] s)"
  proof -
    have ps: "map (\<lambda>r. if pid r \<in> pid ` set br then joined ?g r else r) (playerScopes s)
                = map (seatAll newID b (created s) [br]) (playerScopes s)"
      by (simp add: joined_bracketGame[of newID "created s" b ?avg br])
    have gs: "map (\<lambda>h. if gid h = gid ?g then h\<lparr>players := players h @ map pid br\<rparr> else h) (games ?s1)
                = games s @ [bracketGame newID b (created s) br]"
      using old by (simp add: bracketGame_def)
    have "playerScopes ?s1 = playerScopes s" by simp
    then show ?thesis
      unfolding gs by (simp add: seated_def ps)
  qed
  finally show ?thesis by (simp add: ag)
qed

lemma freshIds_seated_one:
  assumes "freshIds newID s"
  shows "freshIds newID (seated newID b [br] s)"
proof -
  let ?c = "created s"
  from assms have inj: "inj_on newID {?c..}"
    and old: "\<forall>g \<in> set (games s). gid g \<noteq> []"
    and fr: "\<And>k. k \<ge> ?c \<Longrightarrow> newID k \<noteq> [] \<and> newID k \<notin> gid ` set (games s)"
    by (simp_all add: freshIds_def)
  have g: "games (seated newID b [br] s) = games s @ [bracketGame newID b ?c br]"
    and c: "created (seated newID b [br] s) = Suc ?c"
    by (simp_all add: seated_def)
  have "newID k \<noteq> newID ?c" if "k \<ge> Suc ?c" for k
    using inj_onD[OF inj, of k ?c] that by auto
  then have "\<forall>k \<ge> Suc ?c. newID k \<noteq> [] \<and> newID k \<notin> gid ` set (games s @ [bracketGame newID b ?c br])"
    using fr by (auto simp: bracketGame_def)
  moreover have "\<forall>h \<in> set (games s @ [bracketGame newID b ?c br]). gid h \<noteq> []"
    using old fr[of ?c] by (auto simp: bracketGame_def)
  moreover have "inj_on newID {Suc ?c..}"
    by (rule inj_on_subset[OF inj]) auto
  ultimately show ?thesis
    unfolding freshIds_def g c by blast
qed

lemma seated_Cons:
  assumes "\<forall>br' \<in> set brs. pid ` set br \<inter> pid ` set br' = {}"
  shows "seated newID b brs (seated newID b [br] s) = seated newID b (br # brs) s"
proof -
  have "seatAll newID b (Suc (created s)) brs (seatAll newID b (created s) [br] r)
          = seatAll newID b (created s) (br # brs) r" for r
  proof (cases "pid r \<in> pid ` set br")
    case True
    then have "\<forall>br' \<in> set brs. pid (joined (bracketGame newID b (created s) br) r) \<notin> pid ` set br'"
      using assms by auto
    from seatAll_outside[OF this] True show ?thesis by simp
  next
    case False
    then show ?thesis by simp
  qed
  then have "map (seatAll newID b (Suc (created s)) brs) (map (seatAll newID b (created s) [br]) ps)
          = map (seatAll newID b (created s) (br # brs)) ps" for ps
    by (simp del: seatAll.simps)
  then show ?thesis
    by (simp add: seated_def del: seatAll.simps)
qed

lemma seated_Nil: "seated newID b [] s = s"
proof -
  have "map (seatAll newID b (created s) []) (playerScopes s) = playerScopes s"
    by (intro map_idI) simp
  then show ?thesis by (simp add: seated_def)
qed

lemma distinct_concat_pids:
  assumes "distinct (concat (map (map pid) (br # brs)))"
  shows "distinct (map pid br)" "distinct (concat (map (map pid) brs))"
    "\<forall>br' \<in> set brs. pid ` set br \<inter> pid ` set br' = {}"
proof -
  from assms have d: "distinct (map pid br @ concat (map (map pid) brs))"
    by (simp only: list.map concat.simps)
  then show "distinct (map pid br)" "distinct (concat (map (map pid) brs))"
    by (simp_all only: distinct_append)
  from d have e: "set (map pid br) \<inter> set (concat (map (map pid) brs)) = {}"
    by (simp only: distinct_append)
  show "\<forall>br' \<in> set brs. pid ` set br \<inter> pid ` set br' = {}"
  proof
    fix br' assume "br' \<in> set brs"
    then have "set (map pid br') \<subseteq> set (concat (map (map pid) brs))"
      by (induction brs) auto
    with e show "pid ` set br \<inter> pid ` set br' = {}"
      unfolding set_map by blast
  qed
qed

lemma waiting_seated_one:
  assumes "waiting s y" "y \<notin> pid ` set br"
  shows "waiting (seated newID b [br] s) y"
proof (rule waiting_frame[where F = "seatAll newID b (created s) [br]" and s = s])
  show "playerScopes (seated newID b [br] s) = map (seatAll newID b (created s) [br]) (playerScopes s)"
    by (simp add: seated_def)
  show "pid (seatAll newID b (created s) [br] r) = pid r" for r
    by (rule pid_seatAll)
  show "seatAll newID b (created s) [br] r = r" if "pid r = y" for r
    using that assms(2) by simp
  show "waiting s y" by (rule assms(1))
qed

lemma bracketGames_complete_step:
  assumes "\<not> length br < requiredPlayers" "freshIds newID s" "distinct (map pid br)"
    "\<forall>q \<in> set br. waiting s (pid q)"
  shows "bracketGames newID b (br # brs) s = bracketGames newID b brs (seated newID b [br] s)"
proof -
  let ?avg = "Some (real_of_int (sum_list (map ratingOf br)) / real (length br))"
  obtain g s1 where ag: "addGame newID b \<lparr>playerCount = requiredPlayers\<rparr> ?avg s = (g, s1)"
    by (cases "addGame newID b \<lparr>playerCount = requiredPlayers\<rparr> ?avg s")
  from bracket_step[OF assms(2,3,4), of b]
  have "assignBracket g br s1 = Inr (seated newID b [br] s)"
    by (simp only: ag fst_conv snd_conv)
  then show ?thesis
    using assms(1) by (simp only: bracketGames.simps if_False Let_def ag prod.case sum.case)
qed

lemma bracketGames_closed:
  assumes "freshIds newID s" "distinct (concat (map (map pid) brs))"
    "\<forall>br \<in> set brs. \<forall>q \<in> set br. waiting s (pid q)"
  shows "bracketGames newID b brs s
           = Inr (seated newID b (filter (\<lambda>br. \<not> length br < requiredPlayers) brs) s)"
  using assms
proof (induction brs arbitrary: s)
  case Nil
  then show ?case by (simp add: seated_Nil)
next
  case (Cons br brs)
  note d = distinct_concat_pids[OF Cons.prems(2)]
  have wb: "\<forall>br' \<in> set brs. \<forall>q \<in> set br'. waiting s (pid q)"
    and w: "\<forall>q \<in> set br. waiting s (pid q)"
    using Cons.prems(3) by simp_all
  show ?case
  proof (cases "length br < requiredPlayers")
    case True
    then show ?thesis using Cons.IH[OF Cons.prems(1) d(2) wb] by simp
  next
    case False
    let ?s2 = "seated newID b [br] s"
    have fr2: "freshIds newID ?s2" by (rule freshIds_seated_one[OF Cons.prems(1)])
    have w2: "\<forall>br' \<in> set brs. \<forall>q \<in> set br'. waiting ?s2 (pid q)"
    proof (intro ballI)
      fix br' q assume b': "br' \<in> set brs" and q: "q \<in> set br'"
      then have "pid q \<in> pid ` set br'" by simp
      with d(3) b' have nin: "pid q \<notin> pid ` set br" by blast
      have "waiting s (pid q)" using wb b' q by simp
      then show "waiting ?s2 (pid q)" using nin by (rule waiting_seated_one)
    qed
    have disj: "\<forall>br' \<in> set (filter (\<lambda>br. \<not> length br < requiredPlayers) brs).
                  pid ` set br \<inter> pid ` set br' = {}"
      using d(3) by simp
    have "bracketGames newID b (br # brs) s = bracketGames newID b brs ?s2"
      by (rule bracketGames_complete_step[OF False Cons.prems(1) d(1) w])
    also have "\<dots> = Inr (seated newID b (filter (\<lambda>br. \<not> length br < requiredPlayers) brs) ?s2)"
      by (rule Cons.IH[OF fr2 d(2) w2])
    also have "seated newID b (filter (\<lambda>br. \<not> length br < requiredPlayers) brs) ?s2
                 = seated newID b (br # filter (\<lambda>br. \<not> length br < requiredPlayers) brs) s"
      by (rule seated_Cons[OF disj])
    finally show ?thesis using False by simp
  qed
qed

lemma requiredPlayers_pos: "0 < requiredPlayers"
  by (simp add: requiredPlayers_def)

lemma filter_bracketsFrom:
  "filter (\<lambda>br. \<not> length br < requiredPlayers) (bracketsFrom i allPlayers)
     = map (\<lambda>j. take requiredPlayers (drop (i + j * requiredPlayers) allPlayers))
         [0 ..< (length allPlayers - i) div requiredPlayers]"
proof (induction i allPlayers rule: bracketsFrom.induct)
  case (1 i allPlayers)
  let ?R = requiredPlayers
  let ?n = "length allPlayers"
  show ?case
  proof (cases "i < ?n")
    case False
    then have "bracketsFrom i allPlayers = []" by (subst bracketsFrom.simps) simp
    moreover from False have "(?n - i) div ?R = 0" by simp
    ultimately show ?thesis by simp
  next
    case True
    then have unf: "bracketsFrom i allPlayers
            = take ?R (drop i allPlayers) # bracketsFrom (i + ?R) allPlayers"
      by (subst bracketsFrom.simps) simp
    note IH = 1[OF True]
    show ?thesis
    proof (cases "?n - i < ?R")
      case small: True
      then have "(?n - i) div ?R = 0" "(?n - (i + ?R)) div ?R = 0" by simp_all
      moreover from small have "length (take ?R (drop i allPlayers)) < ?R" by simp
      ultimately show ?thesis using IH unfolding unf by simp
    next
      case big: False
      then have len: "\<not> length (take ?R (drop i allPlayers)) < ?R" by simp
      from big have "(?n - i) div ?R = Suc ((?n - i - ?R) div ?R)"
        using requiredPlayers_pos by (simp add: le_div_geq)
      then have d: "(?n - i) div ?R = Suc ((?n - (i + ?R)) div ?R)" by simp
      have "map (\<lambda>j. take ?R (drop (i + j * ?R) allPlayers)) [0 ..< Suc ((?n - (i + ?R)) div ?R)]
              = take ?R (drop i allPlayers) #
                map (\<lambda>j. take ?R (drop (i + ?R + j * ?R) allPlayers)) [0 ..< (?n - (i + ?R)) div ?R]"
        by (simp add: map_upt_Suc del: upt_Suc add: add.assoc)
      then show ?thesis using IH len unfolding unf d by simp
    qed
  qed
qed

lemma concat_bracketsFrom: "concat (bracketsFrom i allPlayers) = drop i allPlayers"
proof (induction i allPlayers rule: bracketsFrom.induct)
  case (1 i allPlayers)
  show ?case
  proof (cases "i < length allPlayers")
    case False
    then show ?thesis by (subst bracketsFrom.simps) simp
  next
    case True
    have "take requiredPlayers (drop i allPlayers) @ drop (i + requiredPlayers) allPlayers
            = drop i allPlayers"
      by (metis add.commute append_take_drop_id drop_drop)
    then show ?thesis using 1[OF True] True by (subst bracketsFrom.simps) simp
  qed
qed

lemma completeBrackets_eq:
  "filter (\<lambda>br. \<not> length br < requiredPlayers) (bracketsFrom 0 allPlayers) = completeBrackets allPlayers"
  using filter_bracketsFrom[of 0 allPlayers] by (simp add: completeBrackets_def)

lemma concat_take_blocks:
  "concat (map (\<lambda>j. take r (drop (j * r) xs)) [0 ..< k]) = take (k * r) xs"
proof (induction k)
  case 0
  then show ?case by simp
next
  case (Suc k)
  have "take (k * r) xs @ take r (drop (k * r) xs) = take (k * r + r) xs"
    by (simp add: take_add)
  with Suc show ?case by (simp add: add.commute)
qed

lemma completeBrackets_leftOver:
  "concat (completeBrackets allPlayers) @ leftOver allPlayers = allPlayers"
  by (simp add: completeBrackets_def leftOver_def concat_take_blocks)

lemma completeBrackets_length:
  "length (completeBrackets allPlayers) = length allPlayers div requiredPlayers"
  by (simp add: completeBrackets_def)

lemma completeBrackets_full:
  assumes "br \<in> set (completeBrackets allPlayers)"
  shows "length br = requiredPlayers"
proof -
  from assms have "br \<in> set (filter (\<lambda>br. \<not> length br < requiredPlayers) (bracketsFrom 0 allPlayers))"
    by (simp only: completeBrackets_eq)
  then have "\<not> length br < requiredPlayers" by simp
  moreover from assms have "length br \<le> requiredPlayers"
    by (auto simp: completeBrackets_def)
  ultimately show ?thesis by simp
qed

lemma lookupPlayer_distinct:
  assumes "distinct (map pid (playerScopes s))" "q \<in> set (playerScopes s)"
  shows "lookupPlayer s (pid q) = Some q"
proof -
  have "distinct (map pid ps) \<Longrightarrow> q \<in> set ps \<Longrightarrow> find (\<lambda>r. pid r = pid q) ps = Some q" for ps
    by (induction ps) (auto simp: image_iff)
  with assms show ?thesis by (simp add: lookupPlayer_def)
qed

lemma waitingRated_subset:
  "q \<in> set (waitingRated ps) \<Longrightarrow> q \<in> set ps \<and> \<not> truthy (gameID q)"
  by (simp add: waitingRated_def)

lemma waitingRated_distinct:
  assumes "distinct (map pid ps)"
  shows "distinct (map pid (waitingRated ps))"
proof -
  from assms have "distinct ps" "inj_on pid (set ps)" by (simp_all add: distinct_map)
  then have "distinct (waitingRated ps)" "inj_on pid (set (waitingRated ps))"
    by (auto simp: waitingRated_def intro: inj_on_subset)
  then show ?thesis by (simp add: distinct_map)
qed

lemma seatAll_member:
  assumes "distinct (concat (map (map pid) brs))" "j < length brs" "q \<in> set (brs ! j)"
  shows "seatAll newID b c brs q = joined (bracketGame newID b (c + j) (brs ! j)) q"
  using assms
proof (induction brs arbitrary: c j)
  case Nil
  then show ?case by simp
next
  case (Cons br brs)
  note d = distinct_concat_pids[OF Cons.prems(1)]
  show ?case
  proof (cases j)
    case 0
    with Cons.prems(3) show ?thesis by simp
  next
    case (Suc i)
    with Cons.prems have i: "i < length brs" "q \<in> set (brs ! i)" by simp_all
    then have "brs ! i \<in> set brs" "pid q \<in> pid ` set (brs ! i)" by simp_all
    with d(3) have "pid q \<notin> pid ` set br" by blast
    then show ?thesis using Cons.IH[OF d(2) i, of "Suc c"] Suc by simp
  qed
qed

lemma bracketGamesOf_nth:
  "j < length brs \<Longrightarrow> bracketGamesOf newID b c brs ! j = bracketGame newID b (c + j) (brs ! j)"
proof (induction brs arbitrary: c j)
  case Nil
  then show ?case by simp
next
  case (Cons br brs)
  then show ?case by (cases j) simp_all
qed

lemma bracketGamesOf_length [simp]: "length (bracketGamesOf newID b c brs) = length brs"
  by (induction brs arbitrary: c) simp_all

lemma skillRatingHandler_seated:
  assumes g: "lookupPlayer s p = Some pl" "\<not> truthy (gameID pl)" "truthyNum (skillRating pl)"
    and r: "filter (\<lambda>b. status b = ''running'') (batches s) = b # bs"
    and dp: "distinct (map pid (playerScopes s))" and fr: "freshIds newID s"
  shows "skillRatingHandler newID p s
           = seated newID b (completeBrackets (waitingRated (playerScopes s))) s"
proof (cases "length (waitingRated (playerScopes s)) < requiredPlayers")
  case True
  then have "completeBrackets (waitingRated (playerScopes s)) = []"
    by (simp add: completeBrackets_def)
  then show ?thesis using g True by (simp add: skillRatingHandler_def seated_Nil)
next
  case False
  let ?all = "waitingRated (playerScopes s)"
  have "concat (map (map pid) (bracketsFrom 0 ?all)) = map pid (concat (bracketsFrom 0 ?all))"
    by (simp add: map_concat)
  then have d: "distinct (concat (map (map pid) (bracketsFrom 0 ?all)))"
    using waitingRated_distinct[OF dp] by (simp add: concat_bracketsFrom)
  have w: "\<forall>br \<in> set (bracketsFrom 0 ?all). \<forall>q \<in> set br. waiting s (pid q)"
  proof (intro ballI)
    fix br q assume "br \<in> set (bracketsFrom 0 ?all)" "q \<in> set br"
    then have "q \<in> set (concat (bracketsFrom 0 ?all))" by auto
    then have "q \<in> set ?all" by (simp add: concat_bracketsFrom)
    from waitingRated_subset[OF this] lookupPlayer_distinct[OF dp]
    show "waiting s (pid q)" by (simp add: waiting_def)
  qed
  from bracketGames_closed[OF fr d w, of b]
  have "bracketGames newID b (bracketsFrom 0 ?all) s = Inr (seated newID b (completeBrackets ?all) s)"
    by (simp only: completeBrackets_eq)
  then show ?thesis
    using g False r by (simp add: skillRatingHandler_def Let_def)
qed

lemma completeBrackets_pids:
  assumes "distinct (map pid allPlayers)"
  shows "distinct (concat (map (map pid) (completeBrackets allPlayers)))"
    and "\<forall>q \<in> set (leftOver allPlayers). \<forall>br \<in> set (completeBrackets allPlayers). pid q \<notin> pid ` set br"
proof -
  have "map pid (concat (completeBrackets allPlayers)) @ map pid (leftOver allPlayers) = map pid allPlayers"
    using completeBrackets_leftOver[of allPlayers] by (metis map_append)
  with assms have d: "distinct (map pid (concat (completeBrackets allPlayers)) @ map pid (leftOver allPlayers))"
    by simp
  then show "distinct (concat (map (map pid) (completeBrackets allPlayers)))"
    by (simp add: map_concat)
  from d have e: "set (map pid (concat (completeBrackets allPlayers))) \<inter> set (map pid (leftOver allPlayers)) = {}"
    by (simp only: distinct_append)
  show "\<forall>q \<in> set (leftOver allPlayers). \<forall>br \<in> set (completeBrackets allPlayers). pid q \<notin> pid ` set br"
  proof (intro ballI notI)
    fix q br assume q: "q \<in> set (leftOver allPlayers)" and br: "br \<in> set (completeBrackets allPlayers)"
      and m: "pid q \<in> pid ` set br"
    from br m have "pid q \<in> set (map pid (concat (completeBrackets allPlayers)))" by auto
    moreover from q have "pid q \<in> set (map pid (leftOver allPlayers))" by simp
    ultimately show False using e by blast
  qed
qed

lemma leftOver_short: "length (leftOver allPlayers) < requiredPlayers"
proof -
  have "length (leftOver allPlayers) = length allPlayers mod requiredPlayers"
    by (simp add: leftOver_def minus_div_mult_eq_mod)
  then show ?thesis using requiredPlayers_pos by simp
qed

lemma in_complete_in_all:
  assumes "j < length (completeBrackets allPlayers)" "q \<in> set (completeBrackets allPlayers ! j)"
  shows "q \<in> set allPlayers"
proof -
  from assms have "q \<in> set (concat (completeBrackets allPlayers))"
    using nth_mem by fastforce
  then have "q \<in> set (concat (completeBrackets allPlayers) @ leftOver allPlayers)" by simp
  then show ?thesis by (simp only: completeBrackets_leftOver)
qed

lemma leftOver_in_all: "q \<in> set (leftOver allPlayers) \<Longrightarrow> q \<in> set allPlayers"
  by (auto simp: leftOver_def dest: in_set_dropD)

lemma waitingRated_sorted: "sorted (map ratingOf (waitingRated ps))"
  by (simp add: waitingRated_def)

lemma waitingRated_pool:
  "set (waitingRated ps)
     = {q \<in> set ps. \<not> truthy (gameID q) \<and> skillRating q \<noteq> None \<and> \<not> truthy (ended q)}"
  by (auto simp: waitingRated_def)

lemma waitingRated_stable:
  "filter (\<lambda>q. ratingOf q = r) (waitingRated ps)
     = filter (\<lambda>q. ratingOf q = r \<and> \<not> truthy (gameID q) \<and> skillRating q \<noteq> None \<and> \<not> truthy (ended q)) ps"
  by (simp add: waitingRated_def sort_key_stable conj_commute)

text \<open>
  Claim C6, as stated (for every complete bracket the callback creates one new session
  and assigns the bracket's members to it). Not so when no batch is running, nor when
  the participant whose rating was set has rating \<open>0\<close>. In \<open>bracketState\<close> without its batch
  five rated participants wait, four of them form a complete bracket, and the callback
  run for \<open>p5\<close> leaves the state as it is, without a game. With a running batch and the four
  waiting participants \<open>p1\<close>, \<open>p2\<close>, \<open>p3\<close> and \<open>p4\<close>, the last one rated \<open>0\<close>, the callback
  run for \<open>p4\<close> returns at \<^verbatim>\<open>if (!playerRating) return\<close> and creates no game either.
\<close>

theorem bracketed_matching_stops_without_batch:
  "map pid (waitingRated (playerScopes (bracketState\<lparr>batches := []\<rparr>)))
     = [''p2'', ''p3'', ''p1'', ''p5'', ''p4'']
   \<and> map (map pid) (completeBrackets (waitingRated (playerScopes (bracketState\<lparr>batches := []\<rparr>))))
     = [[''p2'', ''p3'', ''p1'', ''p5'']]
   \<and> skillRatingHandler exampleID ''p5'' (bracketState\<lparr>batches := []\<rparr>)
     = bracketState\<lparr>batches := []\<rparr>
   \<and> games (skillRatingHandler exampleID ''p5'' (bracketState\<lparr>batches := []\<rparr>)) = []
   \<and> map (map pid) (completeBrackets (waitingRated
        [ratedPlayer ''p1'' 30, ratedPlayer ''p2'' 10, ratedPlayer ''p3'' 20, ratedPlayer ''p4'' 0]))
     = [[''p4'', ''p2'', ''p3'', ''p1'']]
   \<and> games (skillRatingHandler exampleID ''p4''
        (bracketState\<lparr>playerScopes :=
           [ratedPlayer ''p1'' 30, ratedPlayer ''p2'' 10, ratedPlayer ''p3'' 20, ratedPlayer ''p4'' 0]\<rparr>))
     = []"
  by (simp add: bracketState_def skillRatingHandler_def lookupPlayer_def Let_def
      bracketsFrom.simps waitingRated_def ratingOf_def truthy_def truthyNum_def requiredPlayers_def
      completeBrackets_def ratedPlayer_def examplePlayer_def)

text \<open>
  Claim C6, amended. The \<open>skillRating\<close> callback, run for a participant without a game
  whose rating is set and not \<open>0\<close>, sorts by rating all the participants who have no game,
  have not ended and have a rating set (participants of equal rating keep the order of
  the player scopes), and cuts them into brackets of \<open>requiredPlayers\<close>. With fewer than
  \<open>requiredPlayers\<close> of them, or with no running batch, it changes nothing. With a running
  batch it appends to the games exactly one new game per complete bracket, in order: the
  game of bracket \<open>j\<close> has the next free id, capacity \<open>requiredPlayers\<close> and exactly the
  bracket's \<open>requiredPlayers\<close> members, each of whom has that game as \<open>gameID\<close>. The
  participants left over, fewer than \<open>requiredPlayers\<close>, get no game: their records are
  unchanged and they stay unassigned.
\<close>

theorem bracketed_matching_complete_brackets:
  assumes "lookupPlayer s p = Some pl" "\<not> truthy (gameID pl)" "truthyNum (skillRating pl)"
    and "distinct (map pid (playerScopes s))" and "freshIds newID s"
  shows "(filter (\<lambda>b. status b = ''running'') (batches s) = [] \<longrightarrow> skillRatingHandler newID p s = s)
    \<and> (length (waitingRated (playerScopes s)) < requiredPlayers \<longrightarrow> skillRatingHandler newID p s = s)
    \<and> (\<forall>b bs. filter (\<lambda>b. status b = ''running'') (batches s) = b # bs \<longrightarrow>
          games (skillRatingHandler newID p s)
            = games s @ bracketGamesOf newID b (created s) (completeBrackets (waitingRated (playerScopes s))) \<and>
          length (bracketGamesOf newID b (created s) (completeBrackets (waitingRated (playerScopes s))))
            = length (waitingRated (playerScopes s)) div requiredPlayers \<and>
          (\<forall>j < length (waitingRated (playerScopes s)) div requiredPlayers.
             gid (bracketGamesOf newID b (created s) (completeBrackets (waitingRated (playerScopes s))) ! j)
               = newID (created s + j) \<and>
             players (bracketGamesOf newID b (created s) (completeBrackets (waitingRated (playerScopes s))) ! j)
               = map pid (completeBrackets (waitingRated (playerScopes s)) ! j) \<and>
             length (completeBrackets (waitingRated (playerScopes s)) ! j) = requiredPlayers \<and>
             playerCount (treatment
                (bracketGamesOf newID b (created s) (completeBrackets (waitingRated (playerScopes s))) ! j))
               = requiredPlayers \<and>
             (\<forall>q \<in> set (completeBrackets (waitingRated (playerScopes s)) ! j).
                memberOf (skillRatingHandler newID p s) (pid q) (newID (created s + j)))) \<and>
          (\<forall>q \<in> set (leftOver (waitingRated (playerScopes s))).
             lookupPlayer (skillRatingHandler newID p s) (pid q) = Some q \<and> \<not> truthy (gameID q)))
    \<and> concat (completeBrackets (waitingRated (playerScopes s))) @ leftOver (waitingRated (playerScopes s))
         = waitingRated (playerScopes s)
    \<and> length (leftOver (waitingRated (playerScopes s))) < requiredPlayers
    \<and> sorted (map ratingOf (waitingRated (playerScopes s)))
    \<and> set (waitingRated (playerScopes s))
         = {q \<in> set (playerScopes s).
              \<not> truthy (gameID q) \<and> skillRating q \<noteq> None \<and> \<not> truthy (ended q)}
    \<and> (\<forall>r. filter (\<lambda>q. ratingOf q = r) (waitingRated (playerScopes s))
              = filter (\<lambda>q. ratingOf q = r \<and> \<not> truthy (gameID q) \<and> skillRating q \<noteq> None
                              \<and> \<not> truthy (ended q)) (playerScopes s))"
proof -
  let ?all = "waitingRated (playerScopes s)"
  let ?C = "completeBrackets ?all"
  let ?s' = "skillRatingHandler newID p s"
  have none: "?s' = s" if "filter (\<lambda>b. status b = ''running'') (batches s) = []"
    using assms(1-3) that by (simp add: skillRatingHandler_def Let_def)
  have few: "?s' = s" if "length ?all < requiredPlayers"
    using assms(1-3) that by (simp add: skillRatingHandler_def Let_def)
  note dC = completeBrackets_pids[OF waitingRated_distinct[OF assms(4)]]
  have main: "games ?s' = games s @ bracketGamesOf newID b (created s) ?C \<and>
          length (bracketGamesOf newID b (created s) ?C) = length ?all div requiredPlayers \<and>
          (\<forall>j < length ?all div requiredPlayers.
             gid (bracketGamesOf newID b (created s) ?C ! j) = newID (created s + j) \<and>
             players (bracketGamesOf newID b (created s) ?C ! j) = map pid (?C ! j) \<and>
             length (?C ! j) = requiredPlayers \<and>
             playerCount (treatment (bracketGamesOf newID b (created s) ?C ! j)) = requiredPlayers \<and>
             (\<forall>q \<in> set (?C ! j). memberOf ?s' (pid q) (newID (created s + j)))) \<and>
          (\<forall>q \<in> set (leftOver ?all). lookupPlayer ?s' (pid q) = Some q \<and> \<not> truthy (gameID q))"
    if r: "filter (\<lambda>b. status b = ''running'') (batches s) = b # bs" for b bs
  proof -
    have s': "?s' = seated newID b ?C s"
      by (rule skillRatingHandler_seated[OF assms(1-3) r assms(4,5)])
    have look: "lookupPlayer ?s' y = map_option (seatAll newID b (created s) ?C) (lookupPlayer s y)" for y
      by (rule lookupPlayer_map) (simp_all add: s' seated_def)
    have g: "games ?s' = games s @ bracketGamesOf newID b (created s) ?C"
      by (simp add: s' seated_def)
    have len: "length (bracketGamesOf newID b (created s) ?C) = length ?all div requiredPlayers"
      by (simp add: completeBrackets_length)
    have per: "gid (bracketGamesOf newID b (created s) ?C ! j) = newID (created s + j) \<and>
             players (bracketGamesOf newID b (created s) ?C ! j) = map pid (?C ! j) \<and>
             length (?C ! j) = requiredPlayers \<and>
             playerCount (treatment (bracketGamesOf newID b (created s) ?C ! j)) = requiredPlayers \<and>
             (\<forall>q \<in> set (?C ! j). memberOf ?s' (pid q) (newID (created s + j)))"
      if j: "j < length ?all div requiredPlayers" for j
    proof -
      from j have jl: "j < length ?C" by (simp add: completeBrackets_length)
      have nth: "bracketGamesOf newID b (created s) ?C ! j = bracketGame newID b (created s + j) (?C ! j)"
        by (rule bracketGamesOf_nth[OF jl])
      have full: "length (?C ! j) = requiredPlayers"
        using jl by (intro completeBrackets_full[of _ ?all]) simp
      have mem: "memberOf ?s' (pid q) (newID (created s + j))" if q: "q \<in> set (?C ! j)" for q
      proof -
        from in_complete_in_all[OF jl q] have "q \<in> set (playerScopes s)"
          using waitingRated_subset by blast
        then have "lookupPlayer s (pid q) = Some q"
          by (rule lookupPlayer_distinct[OF assms(4)])
        then have "lookupPlayer ?s' (pid q) = Some (seatAll newID b (created s) ?C q)"
          by (simp add: look)
        also have "seatAll newID b (created s) ?C q = joined (bracketGame newID b (created s + j) (?C ! j)) q"
          by (rule seatAll_member[OF dC(1) jl q])
        finally show ?thesis
          by (simp add: memberOf_def joined_def bracketGame_def)
      qed
      show ?thesis
        using full mem by (simp add: nth bracketGame_def)
    qed
    have left: "lookupPlayer ?s' (pid q) = Some q \<and> \<not> truthy (gameID q)" if q: "q \<in> set (leftOver ?all)" for q
    proof -
      from leftOver_in_all[OF q] have qa: "q \<in> set (playerScopes s)" "\<not> truthy (gameID q)"
        using waitingRated_subset by blast+
      then have "lookupPlayer s (pid q) = Some q"
        using lookupPlayer_distinct[OF assms(4)] by simp
      moreover have "seatAll newID b (created s) ?C q = q"
        using dC(2) q by (intro seatAll_outside) blast
      ultimately show ?thesis using qa(2) by (simp add: look)
    qed
    show ?thesis using g len per left by blast
  qed
  have brackets:
    "(filter (\<lambda>b. status b = ''running'') (batches s) = [] \<longrightarrow> ?s' = s)
    \<and> (length ?all < requiredPlayers \<longrightarrow> ?s' = s)
    \<and> (\<forall>b bs. filter (\<lambda>b. status b = ''running'') (batches s) = b # bs \<longrightarrow>
          games ?s' = games s @ bracketGamesOf newID b (created s) ?C \<and>
          length (bracketGamesOf newID b (created s) ?C) = length ?all div requiredPlayers \<and>
          (\<forall>j < length ?all div requiredPlayers.
             gid (bracketGamesOf newID b (created s) ?C ! j) = newID (created s + j) \<and>
             players (bracketGamesOf newID b (created s) ?C ! j) = map pid (?C ! j) \<and>
             length (?C ! j) = requiredPlayers \<and>
             playerCount (treatment (bracketGamesOf newID b (created s) ?C ! j)) = requiredPlayers \<and>
             (\<forall>q \<in> set (?C ! j). memberOf ?s' (pid q) (newID (created s + j)))) \<and>
          (\<forall>q \<in> set (leftOver ?all). lookupPlayer ?s' (pid q) = Some q \<and> \<not> truthy (gameID q)))
    \<and> concat ?C @ leftOver ?all = ?all
    \<and> length (leftOver ?all) < requiredPlayers"
    using none few main completeBrackets_leftOver[of ?all] leftOver_short[of ?all] by blast
  have pool:
    "sorted (map ratingOf ?all)
    \<and> set ?all = {q \<in> set (playerScopes s).
                    \<not> truthy (gameID q) \<and> skillRating q \<noteq> None \<and> \<not> truthy (ended q)}
    \<and> (\<forall>r. filter (\<lambda>q. ratingOf q = r) ?all
              = filter (\<lambda>q. ratingOf q = r \<and> \<not> truthy (gameID q) \<and> skillRating q \<noteq> None
                              \<and> \<not> truthy (ended q)) (playerScopes s))"
    using waitingRated_sorted[of "playerScopes s"] waitingRated_pool[of "playerScopes s"]
      waitingRated_stable[of _ "playerScopes s"] by blast
  note b1 = brackets[THEN conjunct1]
    and b2 = brackets[THEN conjunct2, THEN conjunct1]
    and b3 = brackets[THEN conjunct2, THEN conjunct2, THEN conjunct1]
    and b4 = brackets[THEN conjunct2, THEN conjunct2, THEN conjunct2, THEN conjunct1]
    and b5 = brackets[THEN conjunct2, THEN conjunct2, THEN conjunct2, THEN conjunct2]
  show ?thesis
    by (rule conjI[OF b1 conjI[OF b2 conjI[OF b3 conjI[OF b4 conjI[OF b5 pool]]]]])
qed

lemma freshIds_bracketState:
  "freshIds exampleID (bracketState\<lparr>playerScopes := ps\<rparr>)"
  by (auto simp: freshIds_def bracketState_def exampleID_def inj_on_def)

lemmas bracket_defs =
  waitingRated_def ratingOf_def truthy_def truthyNum_def requiredPlayers_def
  completeBrackets_def leftOver_def bracketGame_def ratedPlayer_def example_defs

theorem bracketed_matching_complete_brackets_witness:
  "lookupPlayer bracketState ''p5'' = Some (ratedPlayer ''p5'' 40)
   \<and> \<not> truthy (gameID (ratedPlayer ''p5'' 40))
   \<and> truthyNum (skillRating (ratedPlayer ''p5'' 40))
   \<and> distinct (map pid (playerScopes bracketState))
   \<and> freshIds exampleID bracketState
   \<and> map pid (waitingRated (playerScopes bracketState)) = [''p2'', ''p3'', ''p1'', ''p5'', ''p4'']
   \<and> map (\<lambda>g. (gid g, playerCount (treatment g), players g))
        (games (skillRatingHandler exampleID ''p5'' bracketState))
        = [(''n'', 4, [''p2'', ''p3'', ''p1'', ''p5''])]
   \<and> memberOf (skillRatingHandler exampleID ''p5'' bracketState) ''p1'' ''n''
   \<and> lookupPlayer (skillRatingHandler exampleID ''p5'' bracketState) ''p4'' = Some (ratedPlayer ''p4'' 50)
   \<and> skillRatingHandler exampleID ''p3''
        (bracketState\<lparr>playerScopes := [ratedPlayer ''p1'' 30, ratedPlayer ''p2'' 10, ratedPlayer ''p3'' 20]\<rparr>)
        = bracketState\<lparr>playerScopes := [ratedPlayer ''p1'' 30, ratedPlayer ''p2'' 10, ratedPlayer ''p3'' 20]\<rparr>"
proof -
  let ?b = "\<lparr>bid = ''b1'', status = ''running''\<rparr>"
  let ?three = "bracketState\<lparr>playerScopes := [ratedPlayer ''p1'' 30, ratedPlayer ''p2'' 10, ratedPlayer ''p3'' 20]\<rparr>"
  have l: "lookupPlayer bracketState ''p5'' = Some (ratedPlayer ''p5'' 40)"
    by (simp add: bracketState_def lookupPlayer_def bracket_defs)
  have t: "\<not> truthy (gameID (ratedPlayer ''p5'' 40))" "truthyNum (skillRating (ratedPlayer ''p5'' 40))"
    by (simp_all add: bracket_defs)
  have d: "distinct (map pid (playerScopes bracketState))"
    by (simp add: bracketState_def bracket_defs)
  have f: "freshIds exampleID bracketState"
    using freshIds_bracketState[of "playerScopes bracketState"] by simp
  have r: "filter (\<lambda>b. status b = ''running'') (batches bracketState) = ?b # []"
    by (simp add: bracketState_def)
  have all: "waitingRated (playerScopes bracketState)
               = [ratedPlayer ''p2'' 10, ratedPlayer ''p3'' 20, ratedPlayer ''p1'' 30,
                  ratedPlayer ''p5'' 40, ratedPlayer ''p4'' 50]"
    by (simp add: bracketState_def bracket_defs)
  have C: "completeBrackets (waitingRated (playerScopes bracketState))
             = [[ratedPlayer ''p2'' 10, ratedPlayer ''p3'' 20, ratedPlayer ''p1'' 30, ratedPlayer ''p5'' 40]]"
    unfolding all by (simp add: completeBrackets_def requiredPlayers_def)
  have L: "leftOver (waitingRated (playerScopes bracketState)) = [ratedPlayer ''p4'' 50]"
    unfolding all by (simp add: leftOver_def requiredPlayers_def)
  note inst = bracketed_matching_complete_brackets[OF l t d f, THEN conjunct2, THEN conjunct2,
      THEN conjunct1, rule_format, OF r]
  have g: "map (\<lambda>g. (gid g, playerCount (treatment g), players g))
        (games (skillRatingHandler exampleID ''p5'' bracketState))
        = [(''n'', 4, [''p2'', ''p3'', ''p1'', ''p5''])]"
    using inst[THEN conjunct1] unfolding C
    by (simp add: bracketState_def exampleID_def bracket_defs)
  have m: "memberOf (skillRatingHandler exampleID ''p5'' bracketState) ''p1'' ''n''"
    using inst[THEN conjunct2, THEN conjunct2, THEN conjunct1, rule_format, of 0] unfolding C all
    by (simp add: bracketState_def exampleID_def bracket_defs)
  have lo: "lookupPlayer (skillRatingHandler exampleID ''p5'' bracketState) ''p4'' = Some (ratedPlayer ''p4'' 50)"
    using inst[THEN conjunct2, THEN conjunct2, THEN conjunct2] unfolding L
    by (simp add: bracket_defs)
  have l3: "lookupPlayer ?three ''p3'' = Some (ratedPlayer ''p3'' 20)"
    by (simp add: bracketState_def lookupPlayer_def bracket_defs)
  have t3: "\<not> truthy (gameID (ratedPlayer ''p3'' 20))" "truthyNum (skillRating (ratedPlayer ''p3'' 20))"
    by (simp_all add: bracket_defs)
  have d3: "distinct (map pid (playerScopes ?three))"
    by (simp add: bracket_defs)
  have few: "length (waitingRated (playerScopes ?three)) < requiredPlayers"
    by (simp add: bracket_defs)
  have three: "skillRatingHandler exampleID ''p3'' ?three = ?three"
    using bracketed_matching_complete_brackets[OF l3 t3 d3 freshIds_bracketState,
        THEN conjunct2, THEN conjunct1] few by (rule mp)
  have pids: "map pid (waitingRated (playerScopes bracketState)) = [''p2'', ''p3'', ''p1'', ''p5'', ''p4'']"
    unfolding all by (simp add: bracket_defs)
  show ?thesis
    using l t d f pids g m lo three by simp
qed

section \<open>The capacity invariant of the strategies that check the capacity\<close>

lemma withinCapacity_assignPlayer:
  assumes wf: "wellFormed s" and c: "withinCapacity (games s)"
    and t: "t \<in> set (games s)" "hasOpenSlot t" and a: "assignPlayer t p s = Inr s'"
  shows "withinCapacity (games s')"
proof -
  define prev where "prev = (case lookupPlayer s p of None \<Rightarrow> None | Some pl \<Rightarrow> gameID pl)"
  define F :: "game \<Rightarrow> game" where
    "F = (\<lambda>h. let h1 = (if Some (gid h) = prev then h\<lparr>players := removeAll p (players h)\<rparr> else h)
              in if gid h1 = gid t then h1\<lparr>players := players h1 @ [p]\<rparr> else h1)"
  have gs: "games s' = map F (games s)"
    using a by (auto simp: assignPlayer_def Let_def prev_def F_def addPlayer_def removePlayer_def
        split: if_splits option.splits)
  have inj: "inj_on gid (set (games s))"
    using wf by (simp add: wellFormed_def distinct_map)
  have rm: "length (removeAll p xs) \<le> length xs" for xs :: "ident list"
    by (simp add: removeAll_filter_not_eq)
  have "length (players (F h)) \<le> playerCount (treatment (F h))" if h: "h \<in> set (games s)" for h
  proof (cases "gid h = gid t")
    case True
    with inj h t(1) have "h = t" by (auto dest: inj_onD)
    then have "length (players (F h)) \<le> Suc (length (players t))"
      using rm[of "players t"] by (simp add: F_def Let_def)
    moreover have "treatment (F h) = treatment t"
      using \<open>h = t\<close> by (simp add: F_def Let_def)
    ultimately show ?thesis using t(2) by (simp add: hasOpenSlot_def)
  next
    case False
    have "length (players (F h)) \<le> length (players h)"
      using False rm[of "players h"] by (simp add: F_def Let_def)
    moreover have "treatment (F h) = treatment h"
      using False by (simp add: F_def Let_def)
    moreover have "length (players h) \<le> playerCount (treatment h)"
      using c h by (simp add: withinCapacity_def)
    ultimately show ?thesis by simp
  qed
  then show ?thesis
    unfolding gs withinCapacity_def set_map by blast
qed

lemma withinCapacity_assign_case:
  assumes "wellFormed s" "withinCapacity (games s)" "t \<in> set (games s)" "hasOpenSlot t"
  shows "withinCapacity (games (case assignPlayer t p s of Inl e \<Rightarrow> s | Inr s' \<Rightarrow> s'))"
  using withinCapacity_assignPlayer[OF assms] assms(2)
  by (cases "assignPlayer t p s") simp_all

lemma withinCapacity_fillLoop:
  assumes "wellFormed s" "withinCapacity (games s)" "\<forall>g \<in> set gs. g \<in> set (games s)"
  shows "withinCapacity (games (fillLoop gs p s))"
  using assms(3)
proof (induction gs)
  case Nil
  then show ?case using assms(2) by simp
next
  case (Cons g gs)
  show ?case
  proof (cases "hasOpenSlot g")
    case True
    with withinCapacity_assign_case[OF assms(1,2), of g p] Cons.prems show ?thesis
      by (simp add: hasOpenSlot_def)
  next
    case False
    with Cons show ?thesis by (simp add: hasOpenSlot_def)
  qed
qed

lemma withinCapacity_step:
  assumes wf: "wellFormed s" and c: "withinCapacity (games s)" and e: "checksCapacity e"
  shows "withinCapacity (games (step s e))"
proof (cases e)
  case (Basic p)
  show ?thesis
  proof (cases "availableGames (games s)")
    case Nil
    then show ?thesis using Basic c by (simp add: basicAssign_def split: option.splits)
  next
    case (Cons t ts)
    then have "t \<in> set (availableGames (games s))" by simp
    then have "t \<in> set (games s)" "hasOpenSlot t"
      by (simp_all add: availableGames_def hasOpenSlot_def)
    from withinCapacity_assign_case[OF wf c this] show ?thesis
      using Basic Cons c by (simp add: basicAssign_def split: option.splits)
  qed
next
  case (Sequential p)
  have "\<forall>g \<in> set (sort_key gid (unstarted (games s))). g \<in> set (games s)"
    by (simp add: unstarted_def)
  from withinCapacity_fillLoop[OF wf c this] show ?thesis
    using Sequential c by (simp add: sequentialFill_def split: option.splits)
next
  case (Random u p)
  with e show ?thesis by simp
next
  case (Attribute p)
  have "\<forall>g \<in> set (filter P (unstarted (games s))). g \<in> set (games s)" for P
    by (simp add: unstarted_def)
  from withinCapacity_fillLoop[OF wf c this] show ?thesis
    using Attribute c by (simp add: attributeMatch_def Let_def split: option.splits)
next
  case (Conditional p)
  show ?thesis
  proof (cases "find (\<lambda>g. length (players g) < playerCount (treatment g)) (unstarted (games s))")
    case None
    then show ?thesis using Conditional c
      by (simp add: conditionalAssign_def split: option.splits)
  next
    case (Some t)
    then have "t \<in> set (unstarted (games s))" "hasOpenSlot t"
      by (auto simp: find_Some_iff hasOpenSlot_def)
    then have tt: "t \<in> set (games s)" "hasOpenSlot t" by (simp_all add: unstarted_def)
    from withinCapacity_assignPlayer[OF wf c tt] show ?thesis
      using Conditional Some c
      by (auto simp: conditionalAssign_def split: option.splits sum.splits)
  qed
qed

lemma withinCapacity_run:
  assumes "wellFormed s" "withinCapacity (games s)" "list_all checksCapacity es"
  shows "withinCapacity (games (run s es))"
  using assms
proof (induction es arbitrary: s)
  case Nil
  then show ?case by (simp add: run_def)
next
  case (Cons e es)
  have "withinCapacity (games (run (step s e) es))"
    using Cons.prems by (intro Cons.IH wellFormed_step withinCapacity_step) simp_all
  then show ?case by (simp add: run_def)
qed

section \<open>The invariants through every callback\<close>

lemma sameScopes_refl [simp]: "sameScopes s s"
  by (simp add: sameScopes_def)

lemma sameScopes_trans: "sameScopes a b \<Longrightarrow> sameScopes b c \<Longrightarrow> sameScopes a c"
  by (simp add: sameScopes_def)

lemma map_pid_setPlayer:
  assumes "\<And>r. pid (f r) = pid r"
  shows "map pid (playerScopes (setPlayer p f s)) = map pid (playerScopes s)"
  by (simp add: setPlayer_def assms comp_def)

lemma sameScopes_setPlayer:
  assumes "\<And>r. pid (f r) = pid r"
  shows "sameScopes (setPlayer p f s) s"
  using map_pid_setPlayer[OF assms] by (simp add: sameScopes_def setPlayer_def)

lemma sameScopes_assignPlayer:
  assumes "assignPlayer g p s = Inr s'"
  shows "sameScopes s' s"
proof -
  define upd :: "player \<Rightarrow> player" where "upd = (\<lambda>q. q\<lparr>gameID := Some (gid g), assignedFactors := Some (treatment g), assignedTreatmentName := treatmentName g\<rparr>)"
  define detached where "detached =
    (case (case lookupPlayer s p of None \<Rightarrow> None | Some pl \<Rightarrow> gameID pl) of
       None \<Rightarrow> games s | Some old \<Rightarrow> removePlayer old p (games s))"
  have s': "s' = setPlayer p upd (s\<lparr>games := addPlayer (gid g) p detached\<rparr>)"
    using assms by (auto simp: assignPlayer_def detached_def upd_def Let_def split: if_splits)
  have "map gid detached = map gid (games s)"
    by (simp add: detached_def split: option.splits)
  moreover have "\<And>r. pid (upd r) = pid r" by (simp add: upd_def)
  ultimately show ?thesis
    unfolding s' sameScopes_def by (simp add: map_pid_setPlayer) (simp add: setPlayer_def)
qed

lemma sameScopes_assign_case:
  "sameScopes (case assignPlayer g p s of Inl e \<Rightarrow> s | Inr s' \<Rightarrow> s') s"
  using sameScopes_assignPlayer by (cases "assignPlayer g p s") auto

lemma sameScopes_fillLoop: "sameScopes (fillLoop gs p s) s"
  by (induction gs) (simp_all add: Let_def sameScopes_assign_case)

lemma sameScopes_clearGameID: "sameScopes (clearGameID p s) s"
proof -
  have "map gid (games (clearGameID p s)) = map gid (games s)"
    by (simp add: clearGameID_def Let_def split: option.splits)
  moreover have "map pid (playerScopes (clearGameID p s)) = map pid (playerScopes s)"
    by (simp add: clearGameID_def Let_def map_pid_setPlayer)
  moreover have "created (clearGameID p s) = created s"
    by (simp add: clearGameID_def Let_def setPlayer_def)
  ultimately show ?thesis by (simp add: sameScopes_def)
qed

lemma sameScopes_step: "sameScopes (step s e) s"
proof (cases e)
  case (Basic p)
  then show ?thesis
    by (simp add: basicAssign_def sameScopes_assign_case split: option.splits list.splits)
next
  case (Sequential p)
  then show ?thesis by (simp add: sequentialFill_def sameScopes_fillLoop split: option.splits)
next
  case (Random u p)
  then show ?thesis
    by (simp add: randomBalanced_def Let_def sameScopes_assign_case split: option.splits)
next
  case (Attribute p)
  then show ?thesis by (simp add: attributeMatch_def Let_def sameScopes_fillLoop split: option.splits)
next
  case (Conditional p)
  have "sameScopes (setPlayer p (\<lambda>q. q\<lparr>waitingReason := w\<rparr>) s1) s" if "assignPlayer t p s = Inr s1" for t s1 w
    using sameScopes_trans[OF sameScopes_setPlayer sameScopes_assignPlayer[OF that]] by simp
  then show ?thesis using Conditional
    by (auto simp: conditionalAssign_def sameScopes_setPlayer split: option.splits sum.splits)
qed

lemma replayGames_result:
  assumes "replayGames gs p s = Some s'"
  shows "s' = s \<or> (\<exists>g s1. assignPlayer g p s = Inr s1 \<and> s' = setPlayer p (\<lambda>q. q\<lparr>requestReplay := False\<rparr>) s1)"
  using assms
proof (induction gs)
  case Nil
  then show ?case by simp
next
  case (Cons g gs)
  show ?case
  proof (cases "length (players g) < playerCount (treatment g)")
    case True
    with Cons.prems show ?thesis by (cases "assignPlayer g p s") auto
  next
    case False
    with Cons show ?thesis by simp
  qed
qed

lemma replayBatches_result:
  assumes "replayBatches bs p s = Some s'"
  shows "s' = s \<or> (\<exists>g s1. assignPlayer g p s = Inr s1 \<and> s' = setPlayer p (\<lambda>q. q\<lparr>requestReplay := False\<rparr>) s1)"
  using assms
proof (induction bs)
  case Nil
  then show ?case by simp
next
  case (Cons b bs)
  show ?case
  proof (cases "replayGames (filter (\<lambda>g. batchID g = bid b \<and> \<not> hasEnded g) (games s)) p s")
    case None
    with Cons show ?thesis by simp
  next
    case (Some s'')
    with Cons.prems have "s'' = s'" by simp
    with replayGames_result[OF Some] show ?thesis by simp
  qed
qed

lemma wellFormed_clearGameID:
  assumes wf: "wellFormed s"
  shows "wellFormed (clearGameID p s)"
proof -
  define prev where "prev = (case lookupPlayer s p of None \<Rightarrow> None | Some pl \<Rightarrow> gameID pl)"
  define F :: "game \<Rightarrow> game" where
    "F = (\<lambda>h. if Some (gid h) = prev then h\<lparr>players := removeAll p (players h)\<rparr> else h)"
  have gs: "games (clearGameID p s) = map F (games s)"
    by (auto simp: clearGameID_def Let_def prev_def F_def removePlayer_def split: option.splits)
  have ids: "map gid (games (clearGameID p s)) = map gid (games s)"
    using sameScopes_clearGameID[of p s] by (simp add: sameScopes_def)
  have look: "lookupPlayer (clearGameID p s) q
                = map_option (\<lambda>r. if pid r = p then r\<lparr>gameID := None\<rparr> else r) (lookupPlayer s q)" for q
    by (simp add: clearGameID_def Let_def lookupPlayer_setPlayer)
  have mem: "memberOf (clearGameID p s) q (gid (F h))" if h: "h \<in> set (games s)" and q: "q \<in> set (players (F h))" for h q
  proof -
    have gF: "gid (F h) = gid h" by (simp add: F_def)
    have qh: "q \<in> set (players h)" using q by (auto simp: F_def split: if_splits)
    from wellFormed_member[OF wf h qh] obtain r where r: "lookupPlayer s q = Some r" "gameID r = Some (gid h)"
      by (auto simp: memberOf_def split: option.splits)
    have "q \<noteq> p"
    proof
      assume "q = p"
      with r have "prev = Some (gid h)" by (simp add: prev_def)
      then have "players (F h) = removeAll p (players h)" by (simp add: F_def)
      with q \<open>q = p\<close> show False by simp
    qed
    with lookupPlayer_pid[OF r(1)] have "pid r \<noteq> p" by simp
    then show ?thesis using r by (simp add: memberOf_def look gF)
  qed
  have d: "distinct (map gid (games (clearGameID p s)))"
    and ne: "\<forall>g \<in> set (games s). gid g \<noteq> []"
    using wf ids by (simp_all add: wellFormed_def)
  show ?thesis
    unfolding wellFormed_def
  proof (intro conjI ballI)
    show "distinct (map gid (games (clearGameID p s)))" by (rule d)
  next
    fix g assume "g \<in> set (games (clearGameID p s))"
    then obtain h where h: "h \<in> set (games s)" "g = F h" by (auto simp: gs)
    then show "gid g \<noteq> []" using ne by (simp add: F_def)
    fix q assume "q \<in> set (players g)"
    with h mem show "memberOf (clearGameID p s) q (gid g)" by simp
  qed
qed

lemma wellFormed_requestReplayHandler:
  assumes wf: "wellFormed s"
  shows "wellFormed (requestReplayHandler p s)"
proof (cases "lookupPlayer s p")
  case None
  then show ?thesis using wf by (simp add: requestReplayHandler_def)
next
  case (Some pl)
  show ?thesis
  proof (cases "requestReplay pl")
    case False
    then show ?thesis using wf Some by (simp add: requestReplayHandler_def)
  next
    case True
    define s2 where "s2 = setPlayer p (\<lambda>q. q\<lparr>ended := None\<rparr>) (clearGameID p s)"
    define running where "running = filter (\<lambda>b. status b = ''running'') (batches s2)"
    have wf2: "wellFormed s2"
      unfolding s2_def by (intro wellFormed_setPlayer wellFormed_clearGameID wf) simp_all
    have l2: "lookupPlayer s2 p = Some (pl\<lparr>gameID := None, ended := None\<rparr>)"
      using clearGameID_lookup[OF Some] by (simp add: s2_def lookupPlayer_setPlayer_same)
    have h: "requestReplayHandler p s =
        (case replayBatches running p s2 of
           Some s' \<Rightarrow> s'
         | None \<Rightarrow> setPlayer p (\<lambda>q. q\<lparr>requestReplay := False\<rparr>)
                    (setPlayer p (\<lambda>q. q\<lparr>replayError := Some ''No games available for replay''\<rparr>) s2))"
      unfolding requestReplayHandler_def s2_def running_def Let_def using Some True by simp
    show ?thesis
    proof (cases "replayBatches running p s2")
      case None
      then show ?thesis
        unfolding h by (simp add: wellFormed_setPlayer wf2)
    next
      case (Some s')
      from replayBatches_result[OF Some] have "wellFormed s'"
      proof
        assume "s' = s2" then show ?thesis using wf2 by simp
      next
        assume "\<exists>g s1. assignPlayer g p s2 = Inr s1 \<and> s' = setPlayer p (\<lambda>q. q\<lparr>requestReplay := False\<rparr>) s1"
        then obtain g s1 where a: "assignPlayer g p s2 = Inr s1"
          and s': "s' = setPlayer p (\<lambda>q. q\<lparr>requestReplay := False\<rparr>) s1" by blast
        from wellFormed_assignPlayer[OF wf2 l2 a] show ?thesis
          unfolding s' by (intro wellFormed_setPlayer) simp_all
      qed
      then show ?thesis unfolding h using Some by simp
    qed
  qed
qed

lemma sameScopes_requestReplayHandler: "sameScopes (requestReplayHandler p s) s"
proof (cases "lookupPlayer s p")
  case None
  then show ?thesis by (simp add: requestReplayHandler_def)
next
  case (Some pl)
  show ?thesis
  proof (cases "requestReplay pl")
    case False
    then show ?thesis using Some by (simp add: requestReplayHandler_def)
  next
    case True
    define s2 where "s2 = setPlayer p (\<lambda>q. q\<lparr>ended := None\<rparr>) (clearGameID p s)"
    define running where "running = filter (\<lambda>b. status b = ''running'') (batches s2)"
    have c2: "sameScopes s2 s"
      unfolding s2_def by (rule sameScopes_trans[OF sameScopes_setPlayer sameScopes_clearGameID]) simp
    have h: "requestReplayHandler p s =
        (case replayBatches running p s2 of
           Some s' \<Rightarrow> s'
         | None \<Rightarrow> setPlayer p (\<lambda>q. q\<lparr>requestReplay := False\<rparr>)
                    (setPlayer p (\<lambda>q. q\<lparr>replayError := Some ''No games available for replay''\<rparr>) s2))"
      unfolding requestReplayHandler_def s2_def running_def Let_def using Some True by simp
    show ?thesis
    proof (cases "replayBatches running p s2")
      case None
      have "sameScopes (setPlayer p (\<lambda>q. q\<lparr>requestReplay := False\<rparr>)
                    (setPlayer p (\<lambda>q. q\<lparr>replayError := Some ''No games available for replay''\<rparr>) s2)) s2"
        by (rule sameScopes_trans[OF sameScopes_setPlayer sameScopes_setPlayer]) simp_all
      from sameScopes_trans[OF this c2] show ?thesis unfolding h using None by simp
    next
      case (Some s')
      from replayBatches_result[OF Some] have "sameScopes s' s2"
      proof
        assume "s' = s2" then show ?thesis by simp
      next
        assume "\<exists>g s1. assignPlayer g p s2 = Inr s1 \<and> s' = setPlayer p (\<lambda>q. q\<lparr>requestReplay := False\<rparr>) s1"
        then obtain g s1 where a: "assignPlayer g p s2 = Inr s1"
          and s': "s' = setPlayer p (\<lambda>q. q\<lparr>requestReplay := False\<rparr>) s1" by blast
        show ?thesis unfolding s'
          by (rule sameScopes_trans[OF sameScopes_setPlayer sameScopes_assignPlayer[OF a]]) simp
      qed
      from sameScopes_trans[OF this c2] show ?thesis unfolding h using Some by simp
    qed
  qed
qed


lemma freshIds_sameScopes:
  assumes "sameScopes s' s" "freshIds newID s"
  shows "freshIds newID s'"
proof -
  from assms(1) have "set (map gid (games s')) = set (map gid (games s))" "created s' = created s"
    by (simp_all add: sameScopes_def)
  then have "gid ` set (games s') = gid ` set (games s)" "created s' = created s" by simp_all
  with assms(2) show ?thesis
    unfolding freshIds_def by (metis (no_types, lifting) image_iff)
qed

lemma gid_bracketGamesOf:
  "map gid (bracketGamesOf newID b c brs) = map newID [c ..< c + length brs]"
proof (induction brs arbitrary: c)
  case Nil
  then show ?case by simp
next
  case (Cons br brs)
  have "c < c + length (br # brs)" by simp
  from upt_conv_Cons[OF this]
  have "[c ..< c + length (br # brs)] = c # [Suc c ..< Suc c + length brs]"
    by simp
  with Cons[of "Suc c"] show ?case by (simp add: bracketGame_def)
qed

lemma freshIds_seated:
  assumes fr: "freshIds newID s"
  shows "freshIds newID (seated newID b brs s)"
proof -
  let ?c = "created s"
  let ?k = "length brs"
  from fr have inj: "inj_on newID {?c..}"
    and old: "\<forall>g \<in> set (games s). gid g \<noteq> []"
    and f: "\<And>m. m \<ge> ?c \<Longrightarrow> newID m \<noteq> [] \<and> newID m \<notin> gid ` set (games s)"
    by (simp_all add: freshIds_def)
  have ids: "gid ` set (games (seated newID b brs s)) = gid ` set (games s) \<union> newID ` {?c ..< ?c + ?k}"
  proof -
    have "set (map gid (games (seated newID b brs s)))
            = set (map gid (games s)) \<union> set (map newID [?c ..< ?c + ?k])"
      by (simp add: seated_def gid_bracketGamesOf del: set_map)
    then show ?thesis by simp
  qed
  have c: "created (seated newID b brs s) = ?c + ?k" by (simp add: seated_def)
  have a: "\<forall>g \<in> set (games (seated newID b brs s)). gid g \<noteq> []"
  proof
    fix g assume "g \<in> set (games (seated newID b brs s))"
    then have "gid g \<in> gid ` set (games s) \<union> newID ` {?c ..< ?c + ?k}"
      using ids by blast
    then show "gid g \<noteq> []" using old f by auto
  qed
  have b: "\<forall>m \<ge> ?c + ?k. newID m \<noteq> [] \<and> newID m \<notin> gid ` set (games (seated newID b brs s))"
  proof (intro allI impI conjI)
    fix m assume m: "m \<ge> ?c + ?k"
    then show "newID m \<noteq> []" using f[of m] by simp
    have "newID m \<notin> newID ` {?c ..< ?c + ?k}"
    proof
      assume "newID m \<in> newID ` {?c ..< ?c + ?k}"
      then obtain j where j: "j \<in> {?c ..< ?c + ?k}" "newID m = newID j" by blast
      with inj_onD[OF inj j(2)] m show False by simp
    qed
    moreover have "newID m \<notin> gid ` set (games s)" using f[of m] m by simp
    ultimately show "newID m \<notin> gid ` set (games (seated newID b brs s))"
      unfolding ids by blast
  qed
  have i: "inj_on newID {?c + ?k..}"
    by (rule inj_on_subset[OF inj]) auto
  show ?thesis
    unfolding freshIds_def c using a b i by blast
qed

lemma pids_seated [simp]:
  "map pid (playerScopes (seated newID b brs s)) = map pid (playerScopes s)"
  by (simp add: seated_def comp_def)

lemma bracketGamesOf_mem:
  assumes "g \<in> set (bracketGamesOf newID b c brs)"
  shows "\<exists>j < length brs. g = bracketGame newID b (c + j) (brs ! j)"
proof -
  from assms obtain j where "j < length (bracketGamesOf newID b c brs)"
    "bracketGamesOf newID b c brs ! j = g"
    by (auto simp: in_set_conv_nth)
  then show ?thesis using bracketGamesOf_nth[of j brs newID b c] by auto
qed

lemma wellFormed_seated:
  assumes wf: "wellFormed s" and fr: "freshIds newID s" and dp: "distinct (map pid (playerScopes s))"
    and db: "distinct (concat (map (map pid) brs))"
    and w: "\<forall>br \<in> set brs. \<forall>q \<in> set br. q \<in> set (playerScopes s) \<and> \<not> truthy (gameID q)"
  shows "wellFormed (seated newID b brs s)"
proof -
  let ?s' = "seated newID b brs s"
  let ?c = "created s"
  have gs: "games ?s' = games s @ bracketGamesOf newID b ?c brs" by (simp add: seated_def)
  have look: "lookupPlayer ?s' y = map_option (seatAll newID b ?c brs) (lookupPlayer s y)" for y
    by (rule lookupPlayer_map) (simp_all add: seated_def)
  from fr have inj: "inj_on newID {?c..}"
    and f: "\<And>m. m \<ge> ?c \<Longrightarrow> newID m \<noteq> [] \<and> newID m \<notin> gid ` set (games s)"
    by (simp_all add: freshIds_def)
  have d: "distinct (map gid (games ?s'))"
  proof -
    have "inj_on newID {?c ..< ?c + length brs}"
      by (rule inj_on_subset[OF inj]) auto
    then have "distinct (map newID [?c ..< ?c + length brs])"
      by (simp add: distinct_map)
    moreover have "set (map gid (games s)) \<inter> set (map newID [?c ..< ?c + length brs]) = {}"
    proof -
      have False if x: "x \<in> set (map gid (games s))" "x \<in> set (map newID [?c ..< ?c + length brs])" for x
      proof -
        from x(2) obtain m where m: "?c \<le> m" "x = newID m" by auto
        from f[OF m(1)] have "newID m \<notin> set (map gid (games s))" by simp
        with x(1) m(2) show False by simp
      qed
      then show ?thesis by blast
    qed
    moreover have "distinct (map gid (games s))" using wf by (simp add: wellFormed_def)
    ultimately show ?thesis
      unfolding gs by (simp only: map_append gid_bracketGamesOf distinct_append)
  qed
  have ne: "\<forall>g \<in> set (games ?s'). gid g \<noteq> []"
    using freshIds_seated[OF fr, of b brs] by (simp add: freshIds_def)
  have oldmem: "memberOf ?s' q (gid g)" if g: "g \<in> set (games s)" and q: "q \<in> set (players g)" for g q
  proof -
    from wellFormed_member[OF wf g q] obtain r where r: "lookupPlayer s q = Some r" "gameID r = Some (gid g)"
      by (auto simp: memberOf_def split: option.splits)
    from wf g have "gid g \<noteq> []" by (simp add: wellFormed_def)
    with r have tr: "truthy (gameID r)" by (simp add: truthy_def)
    have "\<forall>br \<in> set brs. pid r \<notin> pid ` set br"
    proof (intro ballI notI)
      fix br assume br: "br \<in> set brs" and "pid r \<in> pid ` set br"
      then obtain q' where q': "q' \<in> set br" "pid q' = pid r" by auto
      with w br have q'': "q' \<in> set (playerScopes s)" "\<not> truthy (gameID q')" by auto
      from lookupPlayer_distinct[OF dp q''(1)] q'(2) lookupPlayer_pid[OF r(1)] r(1)
      have "q' = r" by simp
      with q''(2) tr show False by simp
    qed
    from seatAll_outside[OF this] r show ?thesis by (simp add: memberOf_def look)
  qed
  have newmem: "memberOf ?s' q (gid g)" if g: "g \<in> set (bracketGamesOf newID b ?c brs)"
    and q: "q \<in> set (players g)" for g q
  proof -
    from bracketGamesOf_mem[OF g] obtain j where j: "j < length brs"
      "g = bracketGame newID b (?c + j) (brs ! j)" by blast
    with q obtain q' where q': "q' \<in> set (brs ! j)" "pid q' = q"
      by (auto simp: bracketGame_def)
    from j(1) q'(1) w have "q' \<in> set (playerScopes s)" using nth_mem by blast
    from lookupPlayer_distinct[OF dp this] have "lookupPlayer s q = Some q'" using q'(2) by simp
    then have "lookupPlayer ?s' q = Some (seatAll newID b ?c brs q')" by (simp add: look)
    also have "seatAll newID b ?c brs q' = joined (bracketGame newID b (?c + j) (brs ! j)) q'"
      by (rule seatAll_member[OF db j(1) q'(1)])
    finally show ?thesis using j(2) by (simp add: memberOf_def joined_def)
  qed
  show ?thesis
    unfolding wellFormed_def
  proof (intro conjI ballI)
    show "distinct (map gid (games ?s'))" by (rule d)
  next
    fix g assume g: "g \<in> set (games ?s')"
    then show "gid g \<noteq> []" using ne by simp
    fix q assume q: "q \<in> set (players g)"
    from g have "g \<in> set (games s) \<or> g \<in> set (bracketGamesOf newID b ?c brs)" by (simp add: gs)
    then show "memberOf ?s' q (gid g)" using oldmem newmem q by blast
  qed
qed

lemma skillRatingHandler_cases:
  assumes dp: "distinct (map pid (playerScopes s))" and fr: "freshIds newID s"
  shows "skillRatingHandler newID p s = s \<or>
         (\<exists>b. skillRatingHandler newID p s
                 = seated newID b (completeBrackets (waitingRated (playerScopes s))) s)"
proof (cases "lookupPlayer s p")
  case None
  then show ?thesis by (simp add: skillRatingHandler_def)
next
  case (Some pl)
  show ?thesis
  proof (cases "\<not> truthy (gameID pl) \<and> truthyNum (skillRating pl)")
    case False
    then show ?thesis using Some by (auto simp: skillRatingHandler_def)
  next
    case True
    show ?thesis
    proof (cases "filter (\<lambda>b. status b = ''running'') (batches s)")
      case Nil
      then show ?thesis using Some True by (simp add: skillRatingHandler_def Let_def)
    next
      case (Cons b bs)
      from skillRatingHandler_seated[OF Some _ _ Cons dp fr] True show ?thesis by blast
    qed
  qed
qed

lemma wellFormed_skillRatingHandler:
  assumes wf: "wellFormed s" and fr: "freshIds newID s" and dp: "distinct (map pid (playerScopes s))"
  shows "wellFormed (skillRatingHandler newID p s)"
    and "freshIds newID (skillRatingHandler newID p s)"
    and "distinct (map pid (playerScopes (skillRatingHandler newID p s)))"
proof -
  let ?all = "waitingRated (playerScopes s)"
  note dC = completeBrackets_pids[OF waitingRated_distinct[OF dp]]
  have w: "\<forall>br \<in> set (completeBrackets ?all). \<forall>q \<in> set br. q \<in> set (playerScopes s) \<and> \<not> truthy (gameID q)"
  proof (intro ballI)
    fix br q assume "br \<in> set (completeBrackets ?all)" "q \<in> set br"
    then obtain j where "j < length (completeBrackets ?all)" "q \<in> set (completeBrackets ?all ! j)"
      by (auto simp: in_set_conv_nth)
    from in_complete_in_all[OF this] waitingRated_subset
    show "q \<in> set (playerScopes s) \<and> \<not> truthy (gameID q)" by blast
  qed
  from skillRatingHandler_cases[OF dp fr, of p]
  show "wellFormed (skillRatingHandler newID p s)"
    using wf wellFormed_seated[OF wf fr dp dC(1) w] by auto
  from skillRatingHandler_cases[OF dp fr, of p]
  show "freshIds newID (skillRatingHandler newID p s)"
    using fr freshIds_seated[OF fr] by auto
  from skillRatingHandler_cases[OF dp fr, of p]
  show "distinct (map pid (playerScopes (skillRatingHandler newID p s)))"
    using dp by auto
qed

lemma invariants_react:
  assumes "wellFormed s" "freshIds newID s" "distinct (map pid (playerScopes s))"
  shows "wellFormed (react newID s c)" "freshIds newID (react newID s c)"
    "distinct (map pid (playerScopes (react newID s c)))"
proof -
  have "wellFormed (react newID s c) \<and> freshIds newID (react newID s c) \<and>
        distinct (map pid (playerScopes (react newID s c)))"
  proof (cases c)
    case (PlayerEvent e)
    from sameScopes_step[of s e] assms(3) have "distinct (map pid (playerScopes (step s e)))"
      by (simp add: sameScopes_def)
    then show ?thesis
      using PlayerEvent wellFormed_step[OF assms(1)] freshIds_sameScopes[OF sameScopes_step assms(2)]
      by simp
  next
    case (ReplayRequest p)
    from sameScopes_requestReplayHandler[of p s] assms(3)
    have "distinct (map pid (playerScopes (requestReplayHandler p s)))"
      by (simp add: sameScopes_def)
    then show ?thesis
      using ReplayRequest wellFormed_requestReplayHandler[OF assms(1)]
        freshIds_sameScopes[OF sameScopes_requestReplayHandler assms(2)]
      by simp
  next
    case (RatingSet p)
    then show ?thesis using wellFormed_skillRatingHandler[OF assms] by simp
  qed
  then show "wellFormed (react newID s c)" "freshIds newID (react newID s c)"
    "distinct (map pid (playerScopes (react newID s c)))" by simp_all
qed

lemma wellFormed_runAll:
  assumes "wellFormed s" "freshIds newID s" "distinct (map pid (playerScopes s))"
  shows "wellFormed (runAll newID s cs)"
  using assms
proof (induction cs arbitrary: s)
  case Nil
  then show ?case by (simp add: runAll_def)
next
  case (Cons c cs)
  from Cons.IH[OF invariants_react[OF Cons.prems]] show ?case by (simp add: runAll_def)
qed


lemma clearGameID_detached:
  assumes "wellFormed s"
  shows "\<forall>h \<in> set (games (clearGameID p s)). p \<notin> set (players h)"
proof (intro ballI notI)
  fix h assume h: "h \<in> set (games (clearGameID p s))" "p \<in> set (players h)"
  from wellFormed_member[OF wellFormed_clearGameID[OF assms] h]
  obtain r where r: "lookupPlayer (clearGameID p s) p = Some r" "gameID r = Some (gid h)"
    by (auto simp: memberOf_def split: option.splits)
  then obtain pl where "lookupPlayer s p = Some pl"
    by (cases "lookupPlayer s p") (auto simp: clearGameID_def Let_def lookupPlayer_setPlayer)
  from clearGameID_lookup[OF this] r show False by simp
qed

section \<open>C2: at most one active assignment\<close>

text \<open>
  Claim C2. From a well-formed state, after any run of the \<^verbatim>\<open>player\<close> callbacks, and
  (with distinct player ids and an id generator whose new ids are unused) after any run
  of all the callbacks, the replay and the bracketing callback among them, every
  participant is in the \<open>players\<close> of at most one game that has not ended. A callback that
  tests \<open>gameID\<close> first (Strategies 1 to 4, the bracketing callback) returns at once when
  it is truthy: the state is unchanged. \<open>assignPlayer\<close> leaves the participant in the target
  game alone: it is taken out of the previous game, its \<open>gameID\<close> names the target and the
  target holds it; the state it leaves is well-formed again, and so is the state after the
  replay callback has cleared \<open>gameID\<close>, in which no game holds the participant: the
  invariant holds between the writes of a callback as well.
\<close>

theorem at_most_one_active_assignment:
  assumes "wellFormed s"
  shows "length (filter (\<lambda>g. \<not> hasEnded g \<and> p \<in> set (players g)) (games (run s es))) \<le> 1
    \<and> (freshIds newID s \<and> distinct (map pid (playerScopes s)) \<longrightarrow>
          length (filter (\<lambda>g. \<not> hasEnded g \<and> p \<in> set (players g)) (games (runAll newID s cs))) \<le> 1)
    \<and> (\<forall>pl u. lookupPlayer s p = Some pl \<and> truthy (gameID pl) \<longrightarrow>
          sequentialFill p s = s \<and> randomBalanced u p s = s \<and>
          attributeMatch p s = s \<and> conditionalAssign p s = s \<and> skillRatingHandler newID p s = s)
    \<and> (\<forall>g pl s'. lookupPlayer s p = Some pl \<and> assignPlayer g p s = Inr s' \<longrightarrow>
          memberOf s' p (gid g) \<and>
          (\<forall>h \<in> set (games s'). p \<in> set (players h) \<longrightarrow> gid h = gid g) \<and>
          (g \<in> set (games s) \<longrightarrow> (\<exists>h \<in> set (games s'). gid h = gid g \<and> p \<in> set (players h))) \<and>
          wellFormed s')
    \<and> wellFormed (clearGameID p s)
    \<and> (\<forall>h \<in> set (games (clearGameID p s)). p \<notin> set (players h))"
proof (intro conjI allI impI)
  show "length (filter (\<lambda>g. \<not> hasEnded g \<and> p \<in> set (players g)) (games (run s es))) \<le> 1"
    by (rule wellFormed_at_most_one[OF wellFormed_run[OF assms]])
next
  assume "freshIds newID s \<and> distinct (map pid (playerScopes s))"
  then have "wellFormed (runAll newID s cs)"
    using assms by (intro wellFormed_runAll) simp_all
  then show "length (filter (\<lambda>g. \<not> hasEnded g \<and> p \<in> set (players g)) (games (runAll newID s cs))) \<le> 1"
    by (rule wellFormed_at_most_one)
next
  fix pl u assume h: "lookupPlayer s p = Some pl \<and> truthy (gameID pl)"
  then show "sequentialFill p s = s" "randomBalanced u p s = s" "attributeMatch p s = s"
    "conditionalAssign p s = s"
    using assigned_short_circuit[of s p pl] by simp_all
  from h show "skillRatingHandler newID p s = s"
    by (simp add: skillRatingHandler_def)
next
  fix g pl s' assume h: "lookupPlayer s p = Some pl \<and> assignPlayer g p s = Inr s'"
  then show "memberOf s' p (gid g)"
    "\<forall>h \<in> set (games s'). p \<in> set (players h) \<longrightarrow> gid h = gid g"
    "g \<in> set (games s) \<Longrightarrow> \<exists>h \<in> set (games s'). gid h = gid g \<and> p \<in> set (players h)"
    "wellFormed s'"
    using assignPlayer_memberOf[of s p pl g s'] assignPlayer_only[OF assms, of p pl g s']
      assignPlayer_holds[of g s p s'] wellFormed_assignPlayer[OF assms, of p pl g s'] by simp_all
next
  show "wellFormed (clearGameID p s)" by (rule wellFormed_clearGameID[OF assms])
  show "\<forall>h \<in> set (games (clearGameID p s)). p \<notin> set (players h)"
    by (rule clearGameID_detached[OF assms])
qed

lemma wellFormed_replayTwo: "wellFormed replayTwo"
  by (simp add: wellFormed_def replayTwo_def memberOf_def lookupPlayer_def example_defs)

lemma freshIds_replayTwo: "freshIds exampleID replayTwo"
  by (auto simp: freshIds_def replayTwo_def exampleID_def inj_on_def example_defs)

theorem at_most_one_active_assignment_witness:
  "wellFormed replayTwo \<and> freshIds exampleID replayTwo
   \<and> distinct (map pid (playerScopes replayTwo))
   \<and> map players (games replayTwo) = [[''p0''], []]
   \<and> map players (games (clearGameID ''p0'' replayTwo)) = [[], []]
   \<and> map players (games (runAll exampleID replayTwo [ReplayRequest ''p0''])) = [[''p0''], []]
   \<and> map players (games (runAll exampleID replayTwo
        [ReplayRequest ''p0'', PlayerEvent (Sequential ''p1''), RatingSet ''p0'', PlayerEvent (Basic ''p0'')]))
        = [[], [''p1'', ''p0'']]
   \<and> length (filter (\<lambda>g. \<not> hasEnded g \<and> ''p0'' \<in> set (players g))
        (games (runAll exampleID replayTwo
          [ReplayRequest ''p0'', PlayerEvent (Sequential ''p1''), RatingSet ''p0'', PlayerEvent (Basic ''p0'')]))) \<le> 1
   \<and> lookupPlayer replayTwo ''p0'' = Some ((examplePlayer ''p0'' (Some ''g1''))\<lparr>requestReplay := True\<rparr>)
   \<and> truthy (gameID ((examplePlayer ''p0'' (Some ''g1''))\<lparr>requestReplay := True\<rparr>))
   \<and> sequentialFill ''p0'' replayTwo = replayTwo
   \<and> (\<exists>s'. assignPlayer (exampleGame ''g2'' 2 []) ''p0'' replayTwo = Inr s'
         \<and> map players (games s') = [[], [''p0'']] \<and> memberOf s' ''p0'' ''g2'' \<and> wellFormed s')"
proof -
  let ?cs = "[ReplayRequest ''p0'', PlayerEvent (Sequential ''p1''), RatingSet ''p0'', PlayerEvent (Basic ''p0'')]"
  let ?pl = "(examplePlayer ''p0'' (Some ''g1''))\<lparr>requestReplay := True\<rparr>"
  have d: "distinct (map pid (playerScopes replayTwo))"
    by (simp add: replayTwo_def example_defs)
  have l: "lookupPlayer replayTwo ''p0'' = Some ?pl"
    by (simp add: replayTwo_def lookupPlayer_def example_defs)
  have t: "truthy (gameID ?pl)"
    by (simp add: truthy_def example_defs)
  have e: "map players (games replayTwo) = [[''p0''], []]"
    "map players (games (clearGameID ''p0'' replayTwo)) = [[], []]"
    "map players (games (runAll exampleID replayTwo [ReplayRequest ''p0''])) = [[''p0''], []]"
    by (simp_all add: replayTwo_def runAll_def replay_defs callback_defs example_defs)
  have r: "map players (games (runAll exampleID replayTwo ?cs)) = [[], [''p1'', ''p0'']]"
    by (simp add: replayTwo_def runAll_def skillRatingHandler_def replay_defs callback_defs example_defs)
  obtain s' where a: "assignPlayer (exampleGame ''g2'' 2 []) ''p0'' replayTwo = Inr s'"
    using assignPlayer_Inr[of "exampleGame ''g2'' 2 []" "''p0''" replayTwo] by (auto simp: example_defs)
  have ps: "map players (games s') = [[], [''p0'']]"
    using a by (auto simp: replayTwo_def callback_defs example_defs)
  note inst = at_most_one_active_assignment[OF wellFormed_replayTwo, of "''p0''" "[]" exampleID ?cs]
  from inst freshIds_replayTwo d
  have one: "length (filter (\<lambda>g. \<not> hasEnded g \<and> ''p0'' \<in> set (players g))
        (games (runAll exampleID replayTwo ?cs))) \<le> 1" by blast
  from inst l t have sc: "sequentialFill ''p0'' replayTwo = replayTwo" by blast
  from inst l a have m: "memberOf s' ''p0'' (gid (exampleGame ''g2'' 2 []))" "wellFormed s'" by blast+
  then have "\<exists>s'. assignPlayer (exampleGame ''g2'' 2 []) ''p0'' replayTwo = Inr s'
         \<and> map players (games s') = [[], [''p0'']] \<and> memberOf s' ''p0'' ''g2'' \<and> wellFormed s'"
    using a ps by (intro exI[of _ s']) (simp add: example_defs)
  then show ?thesis
    using wellFormed_replayTwo freshIds_replayTwo d e r one l t sc by simp
qed

end
